theory Spec2Isabelle
  imports Main "HOL-Library.Char_ord" "HOL-Library.List_Lexorder"
begin

section \<open>Python strings\<close>

text \<open>
  A Python \<open>str\<close> is modelled as a \<open>string\<close>: a list of characters, one \<open>char\<close> per code
  point, so that \<open>length\<close> is Python's \<open>len\<close>. The model covers the code points below 256;
  the character classes below are those of Python 3 restricted to that range.
\<close>

datatype error = IndexError | ValueError | TypeError

definition code_point :: "char \<Rightarrow> nat" where
  "code_point c = of_char c"

text \<open>\<open>str.isspace\<close> on one character: tab, the line breaks, the separators FS..US, space,
  NEL and the no-break space.\<close>

definition is_space :: "char \<Rightarrow> bool" where
  "is_space c = (code_point c \<in> {9, 10, 11, 12, 13, 28, 29, 30, 31, 32, 133, 160})"

text \<open>The line boundaries of \<open>str.splitlines\<close>: LF, VT, FF, CR, FS, GS, RS and NEL.\<close>

definition is_linebreak :: "char \<Rightarrow> bool" where
  "is_linebreak c = (code_point c \<in> {10, 11, 12, 13, 28, 29, 30, 133})"

definition is_digit :: "char \<Rightarrow> bool" where
  "is_digit c = (48 \<le> code_point c \<and> code_point c \<le> 57)"

definition digit_val :: "char \<Rightarrow> int" where
  "digit_val c = int (code_point c) - 48"

definition lower_chr :: "char \<Rightarrow> char" where
  "lower_chr c =
     (let n = code_point c
      in if (65 \<le> n \<and> n \<le> 90) \<or> (192 \<le> n \<and> n \<le> 222 \<and> n \<noteq> 215)
         then char_of (n + 32) else c)"

definition lower :: "string \<Rightarrow> string" where
  "lower s = map lower_chr s"

definition lstrip :: "string \<Rightarrow> string" where
  "lstrip s = dropWhile is_space s"

definition rstrip :: "string \<Rightarrow> string" where
  "rstrip s = rev (dropWhile is_space (rev s))"

definition strip :: "string \<Rightarrow> string" where
  "strip s = rstrip (lstrip s)"

fun startswith :: "string \<Rightarrow> string \<Rightarrow> bool" where
  "startswith s [] = True"
| "startswith [] (p # ps) = False"
| "startswith (c # cs) (p # ps) = (c = p \<and> startswith cs ps)"

definition endswith :: "string \<Rightarrow> string \<Rightarrow> bool" where
  "endswith s p = startswith (rev s) (rev p)"

text \<open>\<open>sub in s\<close>: \<open>sub\<close> occurs in \<open>s\<close> as a contiguous run.\<close>

fun contains :: "string \<Rightarrow> string \<Rightarrow> bool" where
  "contains sub [] = (sub = [])"
| "contains sub (c # cs) = (startswith (c # cs) sub \<or> contains sub cs)"

text \<open>\<open>sep.join(parts)\<close>.\<close>

fun join :: "string \<Rightarrow> string list \<Rightarrow> string" where
  "join sep [] = []"
| "join sep [x] = x"
| "join sep (x # y # ys) = x @ sep @ join sep (y # ys)"

text \<open>\<open>s.split(c)\<close> for a separator of one character: always at least one part.\<close>

fun split_chr :: "char \<Rightarrow> string \<Rightarrow> string list" where
  "split_chr c [] = [[]]"
| "split_chr c (x # xs) =
     (if x = c then [] # split_chr c xs
      else (let r = split_chr c xs in (x # hd r) # tl r))"

text \<open>\<open>s.split(c, n)\<close>: at most \<open>n\<close> splits, the rest of the string is the last part.\<close>

fun split_chr_max :: "nat \<Rightarrow> char \<Rightarrow> string \<Rightarrow> string list" where
  "split_chr_max 0 c s = [s]"
| "split_chr_max (Suc n) c [] = [[]]"
| "split_chr_max (Suc n) c (x # xs) =
     (if x = c then [] # split_chr_max n c xs
      else (let r = split_chr_max (Suc n) c xs in (x # hd r) # tl r))"

text \<open>\<open>s.replace(old, new)\<close>: the occurrences of \<open>old\<close> from left to right, without overlap.
  An empty \<open>old\<close> matches before every character and at the end.\<close>

function replace :: "string \<Rightarrow> string \<Rightarrow> string \<Rightarrow> string" where
  "replace old new [] = (if old = [] then new else [])"
| "replace old new (c # cs) =
     (if old = [] then new @ c # replace old new cs
      else if startswith (c # cs) old then new @ replace old new (drop (length old) (c # cs))
      else c # replace old new cs)"
  by pat_completeness auto
termination
  by (relation "measure (\<lambda>(old, new, s). length s)") auto

text \<open>\<open>s.splitlines()\<close>: the text up to the next line boundary is a line, CR LF counts as one
  boundary, and no empty line follows a final boundary.\<close>

function splitlines :: "string \<Rightarrow> string list" where
  "splitlines s =
     (if s = [] then []
      else (case dropWhile (\<lambda>c. \<not> is_linebreak c) s of
              [] \<Rightarrow> [s]
            | b # r \<Rightarrow> takeWhile (\<lambda>c. \<not> is_linebreak c) s #
                splitlines (if b = CHR 0x0D \<and> startswith r [CHR 0x0A] then tl r else r)))"
  by pat_completeness auto
termination
proof (relation "measure length", goal_cases)
  case 1
  show ?case by simp
next
  case (2 s b r)
  have "length (dropWhile (\<lambda>c. \<not> is_linebreak c) s) \<le> length s"
    by (rule length_dropWhile_le)
  with 2 have "length r < length s" by simp
  moreover have "length (tl r) \<le> length r" by simp
  ultimately show ?case by (auto simp: less_imp_diff_less)
qed

declare splitlines.simps [simp del]

text \<open>
  \<open>int(s)\<close> on a string. The characters above ASCII that are spaces count as a space,
  then the C whitespace (tab, line feed, vertical tab, form feed, carriage return, space)
  is dropped at both ends; the separators FS..US are not dropped here, unlike in
  \<open>str.strip\<close>. What is left is an optional sign and decimal digits, where single
  underscores may stand between digits, and at most 4300 digits (the default of
  \<open>sys.set_int_max_str_digits\<close>). \<open>None\<close> is the \<open>ValueError\<close>.
\<close>

definition is_int_space :: "char \<Rightarrow> bool" where
  "is_int_space c = (code_point c \<in> {9, 10, 11, 12, 13, 32, 133, 160})"

definition int_strip :: "string \<Rightarrow> string" where
  "int_strip s = rev (dropWhile is_int_space (rev (dropWhile is_int_space s)))"

definition MAX_STR_DIGITS :: nat where
  "MAX_STR_DIGITS = 4300"

fun digits_acc :: "int \<Rightarrow> string \<Rightarrow> int option" where
  "digits_acc a [] = Some a"
| "digits_acc a (c # cs) =
     (if is_digit c then digits_acc (10 * a + digit_val c) cs
      else if c = CHR ''_'' \<and> cs \<noteq> [] \<and> is_digit (hd cs) then digits_acc a cs
      else None)"

definition parse_digits :: "string \<Rightarrow> int option" where
  "parse_digits s =
     (case s of [] \<Rightarrow> None
      | c # cs \<Rightarrow>
          if is_digit c \<and> length (filter is_digit s) \<le> MAX_STR_DIGITS
          then digits_acc (digit_val c) cs else None)"

definition py_int :: "string \<Rightarrow> int option" where
  "py_int s =
     (case int_strip s of [] \<Rightarrow> None
      | c # cs \<Rightarrow>
          if c = CHR ''-'' then map_option uminus (parse_digits cs)
          else if c = CHR ''+'' then parse_digits cs
          else parse_digits (c # cs))"

section \<open>The log record parser\<close>

text \<open>The named tuple \<open>CommandLogFile._LogRecordType\<close>.\<close>

record LogRecord =
  p_id :: int
  date_time :: string
  level :: string
  logger :: string
  log_msg :: string

text \<open>
  \<open>CommandLogFile._get_info_from_log_line(line, p_id)\<close>. The constant
  \<open>_CMD_LOG_LINE_PREFIX\<close> is imported from \<open>azure.cli.core.azlogging\<close> and is the first
  parameter here. \<open>Inr None\<close> is the returned \<open>None\<close>, \<open>Inl ValueError\<close> the exception
  that \<open>int\<close> raises on the leading field.
\<close>

definition get_info_from_log_line ::
  "string \<Rightarrow> string \<Rightarrow> int \<Rightarrow> error + LogRecord option" where
  "get_info_from_log_line cmd_log_line_prefix line pid =
     (if \<not> startswith line cmd_log_line_prefix then Inr None
      else
        let rest = drop (length cmd_log_line_prefix) line;
            parts = split_chr_max 4 (CHR ''|'') rest
        in if length parts \<noteq> 5 then Inr None
           else
             (case py_int (strip (parts ! 0)) of
                None \<Rightarrow> Inl ValueError
              | Some n \<Rightarrow>
                  if n \<noteq> pid then Inr None
                  else
                    let msg = strip (parts ! 4);
                        msg' = (if endswith msg [CHR 0x0A] then msg else msg @ [CHR 0x0A])
                    in Inr (Some \<lparr>p_id = n, date_time = strip (parts ! 1),
                                   level = strip (parts ! 2), logger = strip (parts ! 3),
                                   log_msg = msg'\<rparr>)))"

text \<open>
  The loop of \<open>_get_log_record_list(log_fp, p_id)\<close> over the lines of the file, with the
  two variables \<open>prev_record\<close> and \<open>log_record_list\<close> passed along. A named tuple of five
  fields is never falsy, so \<open>if log_record\<close> and \<open>elif prev_record\<close> test for \<open>None\<close>.
\<close>

fun log_record_loop ::
  "string \<Rightarrow> int \<Rightarrow> LogRecord option \<Rightarrow> LogRecord list \<Rightarrow> string list
     \<Rightarrow> error + (LogRecord option \<times> LogRecord list)" where
  "log_record_loop pfx pid prev_record log_record_list [] = Inr (prev_record, log_record_list)"
| "log_record_loop pfx pid prev_record log_record_list (line # rest) =
     (case get_info_from_log_line pfx line pid of
        Inl e \<Rightarrow> Inl e
      | Inr (Some log_record) \<Rightarrow>
          log_record_loop pfx pid (Some log_record)
            (case prev_record of Some p \<Rightarrow> log_record_list @ [p] | None \<Rightarrow> log_record_list) rest
      | Inr None \<Rightarrow>
          (case prev_record of
             Some p \<Rightarrow>
               log_record_loop pfx pid (Some (p\<lparr>log_msg := log_msg p @ line\<rparr>))
                 log_record_list rest
           | None \<Rightarrow> log_record_loop pfx pid None log_record_list rest))"

definition get_log_record_list :: "string \<Rightarrow> string list \<Rightarrow> int \<Rightarrow> error + LogRecord list" where
  "get_log_record_list pfx log_fp pid =
     (case log_record_loop pfx pid None [] log_fp of
        Inl e \<Rightarrow> Inl e
      | Inr (prev_record, log_record_list) \<Rightarrow>
          Inr (case prev_record of Some p \<Rightarrow> log_record_list @ [p] | None \<Rightarrow> log_record_list))"

text \<open>
  The regrouping in the words of the specification: every line recognised as a new record
  gives one record, whose message is followed by the lines up to the next recognised line;
  the lines before the first recognised line belong to no record.
\<close>

definition new_record :: "string \<Rightarrow> int \<Rightarrow> string \<Rightarrow> LogRecord option" where
  "new_record pfx pid line =
     (case get_info_from_log_line pfx line pid of Inr (Some r) \<Rightarrow> Some r | _ \<Rightarrow> None)"

fun regrouped :: "string \<Rightarrow> int \<Rightarrow> string list \<Rightarrow> LogRecord list" where
  "regrouped pfx pid [] = []"
| "regrouped pfx pid (line # rest) =
     (case new_record pfx pid line of
        None \<Rightarrow> regrouped pfx pid rest
      | Some r \<Rightarrow>
          r\<lparr>log_msg := log_msg r @ concat (takeWhile (\<lambda>l. new_record pfx pid l = None) rest)\<rparr>
            # regrouped pfx pid rest)"

section \<open>Paths\<close>

text \<open>\<open>os.path\<close> on a POSIX system: \<open>posixpath.basename\<close>, \<open>dirname\<close> and \<open>join\<close> (of two
  components).\<close>

definition basename :: "string \<Rightarrow> string" where
  "basename p = rev (takeWhile (\<lambda>c. c \<noteq> CHR ''/'') (rev p))"

definition dirname :: "string \<Rightarrow> string" where
  "dirname p =
     (let head = rev (dropWhile (\<lambda>c. c \<noteq> CHR ''/'') (rev p))
      in if head \<noteq> [] \<and> head \<noteq> replicate (length head) (CHR ''/'')
         then rev (dropWhile (\<lambda>c. c = CHR ''/'') (rev head))
         else head)"

definition path_join :: "string \<Rightarrow> string \<Rightarrow> string" where
  "path_join a b =
     (if startswith b ''/'' then b
      else if a = [] \<or> endswith a ''/'' then a @ b
      else a @ ''/'' @ b)"

section \<open>The error minifier\<close>

text \<open>\<open>ErrorMinifier._CONTINUATION_STR\<close>.\<close>

definition CONTINUATION_STR :: string where
  "CONTINUATION_STR = ''...'' @ [CHR 0x0A]"

text \<open>
  \<open>ErrorMinifier._FILE_RE.search(s)\<close> for the pattern \<open>File "(.*)"\<close>, returning group 1:
  at the first place where \<open>File "\<close> is followed, before any line feed, by another double
  quote, the text up to the last such quote.
\<close>

fun file_re_search :: "string \<Rightarrow> string option" where
  "file_re_search [] = None"
| "file_re_search (c # cs) =
     (let seg = takeWhile (\<lambda>x. x \<noteq> CHR 0x0A) (drop 6 (c # cs))
      in if startswith (c # cs) (''File '' @ [CHR 0x22]) \<and> CHR 0x22 \<in> set seg
         then Some (rev (tl (dropWhile (\<lambda>x. x \<noteq> CHR 0x22) (rev seg))))
         else file_re_search cs)"

text \<open>\<open>ErrorMinifier._shorten_file_name(file_name, levels)\<close>; the loop runs
  \<open>levels - 1\<close> times.\<close>

fun shorten_loop :: "nat \<Rightarrow> string \<Rightarrow> string \<Rightarrow> string" where
  "shorten_loop 0 new_name file_name = new_name"
| "shorten_loop (Suc k) new_name file_name =
     shorten_loop k (path_join (basename file_name) new_name) (dirname file_name)"

definition shorten_file_name :: "string \<Rightarrow> int \<Rightarrow> string" where
  "shorten_file_name file_name levels =
     (if levels > 0
      then shorten_loop (nat (levels - 1)) (basename file_name) (dirname file_name)
      else file_name)"

text \<open>The number of separators in a path.\<close>

definition slashes :: "string \<Rightarrow> nat" where
  "slashes s = length (filter (\<lambda>c. c = CHR ''/'') s)"

text \<open>A path has a name in it when it is not made of separators only.\<close>

definition has_name :: "string \<Rightarrow> bool" where
  "has_name f = (\<exists>c\<in>set f. c \<noteq> CHR ''/'')"

text \<open>
  One step of the loop of \<open>_minify_by_shortening_file_names\<close>: the line that is appended
  to \<open>new_lines\<close>, or \<open>None\<close> where the loop continues without appending. The two list
  updates of the first branch are in range: a line that contains \<open>, line\<close> has a comma, so
  its split has two parts or more (lemma \<open>shorten_line_indices_in_range\<close>).
\<close>

definition shorten_line :: "int \<Rightarrow> string \<Rightarrow> string option" where
  "shorten_line levels line =
     (if startswith (strip line) ''File'' \<and> contains '', line'' line then
        (let parts = split_chr (CHR '','') line
         in case file_re_search (parts ! 0) of
              Some g \<Rightarrow>
                Some (join '','' (parts[0 := shorten_file_name g levels,
                                       1 := replace ''line'' ''ln'' (parts ! 1)]))
            | None \<Rightarrow> Some (join '','' parts))
      else if contains ''.py'' line \<and> contains '', ln'' line then
        (let parts = split_chr (CHR '','') line
         in Some (join '','' (parts[0 := shorten_file_name (parts ! 0) levels])))
      else if contains ''here is the traceback'' (lower line) then None
      else Some line)"

definition minify_by_shortening_file_names :: "string \<Rightarrow> int \<Rightarrow> string" where
  "minify_by_shortening_file_names error_string levels =
     join [CHR 0x0A] (List.map_filter (shorten_line levels) (splitlines error_string))"

text \<open>\<open>_minify_by_removing_nested_exceptions\<close>. The index of the first line with the
  marker; with no such line \<open>idx\<close> stays \<open>len(lines) - 1\<close>, an integer, which is \<open>-1\<close> for
  no lines at all.\<close>

fun first_index :: "('a \<Rightarrow> bool) \<Rightarrow> 'a list \<Rightarrow> nat option" where
  "first_index P [] = None"
| "first_index P (x # xs) =
     (if P x then Some 0 else map_option Suc (first_index P xs))"

definition minify_by_removing_nested_exceptions :: "string \<Rightarrow> string" where
  "minify_by_removing_nested_exceptions error_string =
     (let lines = splitlines error_string;
          idx = (case first_index (contains ''During handling of the above exception'') lines of
                   Some i \<Rightarrow> int i
                 | None \<Rightarrow> int (length lines) - 1)
      in if idx = int (length lines) - 1 then error_string
         else join [CHR 0x0A]
                (take (nat idx) lines @ [CONTINUATION_STR] @ drop (length lines - 3) lines))"

text \<open>
  \<open>_minify_by_removing_lines\<close>. \<open>lines[mid]\<close> is read at \<open>mid = len(lines) // 2 + 1\<close>
  before anything else, which raises \<open>IndexError\<close> when there are fewer than three lines.
  The loop over the numbered lines is \<open>removing_loop\<close>.
\<close>

fun removing_loop :: "nat \<Rightarrow> nat \<Rightarrow> string list \<Rightarrow> string list" where
  "removing_loop mid i [] = []"
| "removing_loop mid i (line # rest) =
     (if i = mid then [strip CONTINUATION_STR] else []) @
     (if mid \<le> i \<and> i < mid + 4 then [] else [line]) @
     removing_loop mid (Suc i) rest"

definition minify_by_removing_lines :: "string \<Rightarrow> error + string" where
  "minify_by_removing_lines error_string =
     (let lines = splitlines (replace CONTINUATION_STR [] error_string);
          mid = length lines div 2 + 1
      in if mid \<ge> length lines then Inl IndexError
         else
           let mid = (if \<not> (contains ''.py'' (lines ! mid) \<and> contains '', ln'' (lines ! mid))
                      then mid - 1 else mid)
           in Inr (join [CHR 0x0A] (removing_loop mid 0 lines)))"

subsection \<open>The last resort: removing middle lines until the string fits\<close>

text \<open>
  The loop \<open>while len(errors_string) > self._capacity\<close> of \<open>_get_minified_errors\<close> ends
  with a string within the capacity or with the \<open>IndexError\<close> of
  \<open>_minify_by_removing_lines\<close>. It cannot run forever: the number of line boundaries left
  after the continuation markers are taken out never grows, and when it stays the same the
  last line, which held a file reference before, is the marker \<open>...\<close> afterwards. The
  lemmas up to \<open>removing_lines_decreases\<close> establish this measure.
\<close>

definition breaks :: "string \<Rightarrow> nat" where
  "breaks s = length (filter is_linebreak s)"

definition has_py :: "string \<Rightarrow> bool" where
  "has_py l = (contains ''.py'' l \<and> contains '', ln'' l)"

lemma startswith_iff_take: "startswith s p \<longleftrightarrow> take (length p) s = p"
  by (induction s p rule: startswith.induct) auto

lemma startswith_append_drop: "startswith s p \<Longrightarrow> s = p @ drop (length p) s"
  by (metis append_take_drop_id startswith_iff_take)

lemma LF_linebreak: "is_linebreak (CHR 0x0A)"
  by (simp add: is_linebreak_def code_point_def)

lemma dot_not_linebreak: "\<not> is_linebreak (CHR ''.'')"
  by (simp add: is_linebreak_def code_point_def)

lemma breaks_append: "breaks (a @ b) = breaks a + breaks b"
  by (simp add: breaks_def)

lemma breaks_CONT: "breaks CONTINUATION_STR = 1"
  by (simp add: breaks_def CONTINUATION_STR_def LF_linebreak dot_not_linebreak)

lemma breaks_Cons: "breaks (c # s) = (if is_linebreak c then 1 else 0) + breaks s"
  by (simp add: breaks_def)

lemma splitlines_Nil [simp]: "splitlines [] = []"
  by (simp add: splitlines.simps)

lemma splitlines_last_line:
  "s \<noteq> [] \<Longrightarrow> dropWhile (\<lambda>c. \<not> is_linebreak c) s = [] \<Longrightarrow> splitlines s = [s]"
  by (subst splitlines.simps) (simp del: dropWhile_eq_Nil_conv)

lemma splitlines_next_line:
  "dropWhile (\<lambda>c. \<not> is_linebreak c) s = b # r \<Longrightarrow>
   splitlines s = takeWhile (\<lambda>c. \<not> is_linebreak c) s #
     splitlines (if b = CHR 0x0D \<and> startswith r [CHR 0x0A] then tl r else r)"
  by (subst splitlines.simps) auto

lemma breaks_replace_le: "breaks (replace CONTINUATION_STR [] s) \<le> breaks s"
proof (induction "CONTINUATION_STR" "[] :: string" s rule: replace.induct)
  case 1
  then show ?case by (simp add: CONTINUATION_STR_def)
next
  case (2 c cs)
  have ne: "CONTINUATION_STR \<noteq> []" by (simp add: CONTINUATION_STR_def)
  show ?case
  proof (cases "startswith (c # cs) CONTINUATION_STR")
    case True
    from startswith_append_drop[OF True]
    have "breaks (c # cs) = breaks CONTINUATION_STR + breaks (drop (length CONTINUATION_STR) (c # cs))"
      by (metis breaks_append)
    with 2(2)[OF ne True] True ne show ?thesis by simp
  next
    case False
    with 2(3)[OF ne False] ne show ?thesis by (simp add: breaks_def)
  qed
qed

lemma breaks_replace_eq: 
  "breaks (replace CONTINUATION_STR [] s) = breaks s \<Longrightarrow> replace CONTINUATION_STR [] s = s"
proof (induction "CONTINUATION_STR" "[] :: string" s rule: replace.induct)
  case 1
  then show ?case by (simp add: CONTINUATION_STR_def)
next
  case (2 c cs)
  have ne: "CONTINUATION_STR \<noteq> []" by (simp add: CONTINUATION_STR_def)
  show ?case
  proof (cases "startswith (c # cs) CONTINUATION_STR")
    case True
    from startswith_append_drop[OF True]
    have "breaks (c # cs) = breaks CONTINUATION_STR + breaks (drop (length CONTINUATION_STR) (c # cs))"
      by (metis breaks_append)
    moreover have "breaks (replace CONTINUATION_STR [] (drop (length CONTINUATION_STR) (c # cs)))
       \<le> breaks (drop (length CONTINUATION_STR) (c # cs))" by (rule breaks_replace_le)
    ultimately show ?thesis using 2(4) True ne by (simp add: breaks_CONT)
  next
    case False
    with 2(4) ne have "breaks (replace CONTINUATION_STR [] cs) = breaks cs"
      by (simp add: breaks_def split: if_splits)
    from 2(3)[OF ne False this] False ne show ?thesis by simp
  qed
qed

lemma splitlines_no_break: "l \<in> set (splitlines s) \<Longrightarrow> c \<in> set l \<Longrightarrow> \<not> is_linebreak c"
proof (induction s rule: splitlines.induct)
  case (1 s)
  show ?case
  proof (cases "s = []")
    case True
    with 1(2) show ?thesis by (simp add: splitlines.simps)
  next
    case False
    show ?thesis
    proof (cases "dropWhile (\<lambda>c. \<not> is_linebreak c) s")
      case Nil
      with False 1(2) have "l = s" by (simp add: splitlines.simps)
      moreover from Nil have "\<forall>x\<in>set s. \<not> is_linebreak x" by (simp add: dropWhile_eq_Nil_conv)
      ultimately show ?thesis using 1(3) by blast
    next
      case (Cons b r)
      with False 1(2) have "l = takeWhile (\<lambda>c. \<not> is_linebreak c) s \<or>
         l \<in> set (splitlines (if b = CHR 0x0D \<and> startswith r [CHR 0x0A] then tl r else r))"
        by (subst (asm) splitlines.simps) auto
      then show ?thesis
      proof
        assume "l = takeWhile (\<lambda>c. \<not> is_linebreak c) s"
        with 1(3) show ?thesis by (auto dest: set_takeWhileD)
      next
        assume "l \<in> set (splitlines (if b = CHR 0x0D \<and> startswith r [CHR 0x0A] then tl r else r))"
        from 1(1)[OF False Cons this 1(3)] show ?thesis .
      qed
    qed
  qed
qed

lemma breaks_tl_le: "breaks (tl r) \<le> breaks r"
  by (cases r) (auto simp: breaks_def)

lemma length_splitlines_le: "length (splitlines s) \<le> breaks s + 1"
proof (induction s rule: splitlines.induct)
  case (1 s)
  show ?case
  proof (cases "s = []")
    case True
    then show ?thesis by (simp add: splitlines.simps)
  next
    case False
    show ?thesis
    proof (cases "dropWhile (\<lambda>c. \<not> is_linebreak c) s")
      case Nil
      with False show ?thesis by (simp add: splitlines_last_line)
    next
      case (Cons b r)
      let ?rest = "if b = CHR 0x0D \<and> startswith r [CHR 0x0A] then tl r else r"
      have "s = takeWhile (\<lambda>c. \<not> is_linebreak c) s @ b # r"
        using Cons by (metis takeWhile_dropWhile_id)
      then have "breaks s = breaks (takeWhile (\<lambda>c. \<not> is_linebreak c) s) + breaks (b # r)"
        by (metis breaks_append)
      moreover have "is_linebreak b" using Cons by (metis hd_dropWhile list.sel(1) list.distinct(1))
      ultimately have "breaks s \<ge> 1 + breaks r" by (simp add: breaks_def)
      moreover have "breaks ?rest \<le> breaks r" using breaks_tl_le by simp
      moreover have "length (splitlines s) = 1 + length (splitlines ?rest)"
        by (simp add: splitlines_next_line[OF Cons])
      ultimately show ?thesis using 1[OF False Cons] by linarith
    qed
  qed
qed

lemma breaks_join:
  "\<forall>l\<in>set ls. breaks l = 0 \<Longrightarrow> breaks (join [CHR 0x0A] ls) = length ls - 1"
proof (induction ls rule: induct_list012)
  case (3 x y zs)
  then have "breaks (join [CHR 0x0A] (y # zs)) = length zs" by simp
  moreover have "breaks x = 0" using 3(3) by simp
  moreover have "breaks [CHR 0x0A] = 1" by (simp add: breaks_def LF_linebreak)
  ultimately show ?case by (simp add: breaks_append breaks_Cons LF_linebreak)
qed (simp_all add: breaks_def)

lemma breaks_0_iff: "breaks l = 0 \<longleftrightarrow> (\<forall>c\<in>set l. \<not> is_linebreak c)"
  by (auto simp: breaks_def filter_empty_conv)

lemma splitlines_join:
  "\<forall>l\<in>set ls. breaks l = 0 \<Longrightarrow> ls \<noteq> [] \<Longrightarrow> last ls \<noteq> [] \<Longrightarrow>
   splitlines (join [CHR 0x0A] ls) = ls"
proof (induction ls rule: induct_list012)
  case 1
  then show ?case by simp
next
  case (2 x)
  then have "\<forall>c\<in>set x. \<not> is_linebreak c" by (simp add: breaks_0_iff)
  then have "dropWhile (\<lambda>c. \<not> is_linebreak c) x = []" by simp
  with 2 show ?case by (simp add: splitlines_last_line)
next
  case (3 x y zs)
  then have nb: "\<forall>c\<in>set x. \<not> is_linebreak c" by (simp add: breaks_0_iff)
  let ?s = "x @ CHR 0x0A # join [CHR 0x0A] (y # zs)"
  have d: "dropWhile (\<lambda>c. \<not> is_linebreak c) ?s = CHR 0x0A # join [CHR 0x0A] (y # zs)"
    using nb by (simp add: dropWhile_append3 LF_linebreak)
  have t: "takeWhile (\<lambda>c. \<not> is_linebreak c) ?s = x"
    using nb by (simp add: takeWhile_tail LF_linebreak)
  have "splitlines ?s = x # splitlines (join [CHR 0x0A] (y # zs))"
    by (simp add: splitlines_next_line[OF d] t)
  moreover have "splitlines (join [CHR 0x0A] (y # zs)) = y # zs"
    using 3 by simp
  ultimately show ?case by simp
qed


lemma strip_CONT: "strip CONTINUATION_STR = ''...''"
  by (simp add: strip_def lstrip_def rstrip_def CONTINUATION_STR_def is_space_def code_point_def)

lemma removing_loop_gen:
  "removing_loop mid i ls =
     (if i \<le> mid
      then take (mid - i) ls @ (if mid - i < length ls then [''...''] else []) @
           drop (mid + 4 - i) ls
      else drop (mid + 4 - i) ls)"
proof (induction ls arbitrary: i)
  case Nil
  then show ?case by simp
next
  case (Cons l ls)
  show ?case
  proof (cases "i < mid")
    case True
    have t: "take (mid - i) (l # ls) = l # take (mid - Suc i) ls"
      using True by (simp add: take_Cons')
    have d: "drop (mid + 4 - i) (l # ls) = drop (mid + 4 - Suc i) ls"
      using True by (simp add: drop_Cons')
    have c: "mid - i < length (l # ls) \<longleftrightarrow> mid - Suc i < length ls"
      using True by auto
    have "removing_loop mid i (l # ls) = l # removing_loop mid (Suc i) ls"
      using True by simp
    also have "removing_loop mid (Suc i) ls =
        take (mid - Suc i) ls @ (if mid - Suc i < length ls then [''...''] else []) @
        drop (mid + 4 - Suc i) ls"
      using True Cons[of "Suc i"] by simp
    finally show ?thesis using True unfolding t d c by simp
  next
    case False
    show ?thesis
    proof (cases "i = mid")
      case True
      with Cons[of "Suc i"] show ?thesis by (simp add: strip_CONT)
    next
      case False
      with \<open>\<not> i < mid\<close> have gt: "mid < i" by simp
      show ?thesis
      proof (cases "i < mid + 4")
        case True
        then have "mid + 4 - i = Suc (mid + 4 - Suc i)" by simp
        with gt True Cons[of "Suc i"] show ?thesis by (simp add: strip_CONT)
      next
        case False
        with gt Cons[of "Suc i"] show ?thesis by (simp add: strip_CONT)
      qed
    qed
  qed
qed

lemma removing_loop_eq:
  "mid < length ls \<Longrightarrow>
   removing_loop mid 0 ls = take mid ls @ [''...''] @ drop (mid + 4) ls"
  by (simp add: removing_loop_gen)

definition loop_measure :: "string \<Rightarrow> nat" where
  "loop_measure s =
     (let ls = splitlines (replace CONTINUATION_STR [] s)
      in 2 * breaks (replace CONTINUATION_STR [] s) +
         (if ls \<noteq> [] \<and> has_py (last ls) then 1 else 0))"

lemma not_has_py_dots: "\<not> has_py ''...''"
  by (simp add: has_py_def)

lemma removing_lines_decreases:
  assumes "minify_by_removing_lines s = Inr s'"
  shows "loop_measure s' < loop_measure s"
proof -
  define s1 where "s1 = replace CONTINUATION_STR [] s"
  define ls where "ls = splitlines s1"
  define n where "n = length ls"
  define mid0 where "mid0 = n div 2 + 1"
  define mid where "mid = (if has_py (ls ! mid0) then mid0 else mid0 - 1)"
  define new where "new = take mid ls @ [''...''] @ drop (mid + 4) ls"
  from assms have in_range: "mid0 < n"
    by (simp add: minify_by_removing_lines_def Let_def s1_def ls_def n_def mid0_def
             split: if_splits)
  have mid_le: "mid \<le> mid0" and mid_lt: "mid < n"
    using in_range by (auto simp: mid_def)
  from assms in_range have "s' = join [CHR 0x0A] (removing_loop mid 0 ls)"
    by (auto simp: minify_by_removing_lines_def Let_def s1_def ls_def n_def mid0_def mid_def
                   has_py_def split: if_splits)
  with mid_lt have s': "s' = join [CHR 0x0A] new"
    by (simp add: removing_loop_eq new_def n_def)
  have ls_nb: "\<forall>l\<in>set ls. breaks l = 0"
    unfolding ls_def breaks_0_iff using splitlines_no_break by blast
  have new_nb: "\<forall>l\<in>set new. breaks l = 0"
  proof
    fix l assume "l \<in> set new"
    then have "l \<in> set ls \<or> l = ''...''"
      by (auto simp: new_def dest: in_set_takeD in_set_dropD)
    then show "breaks l = 0"
      using ls_nb by (auto simp: breaks_def dot_not_linebreak)
  qed
  have len_new: "length new = mid + 1 + (n - (mid + 4))"
    using mid_lt by (simp add: new_def n_def)
  have b_s': "breaks s' = mid + (n - (mid + 4))"
    using breaks_join[OF new_nb] len_new s' by simp
  have n_le: "n \<le> breaks s1 + 1"
    unfolding n_def ls_def by (rule length_splitlines_le)
  have m_le: "breaks (replace CONTINUATION_STR [] s') \<le> breaks s'"
    by (rule breaks_replace_le)
  show ?thesis
  proof (cases "breaks (replace CONTINUATION_STR [] s') < breaks s1")
    case True
    then show ?thesis by (simp add: loop_measure_def Let_def s1_def)
  next
    case False
    with m_le b_s' n_le mid_lt
    have eq1: "breaks (replace CONTINUATION_STR [] s') = breaks s'"
      and eq2: "mid + (n - (mid + 4)) = n - 1" and eq3: "breaks s' = breaks s1"
      by linarith+
    from eq2 mid_lt have mid_last: "mid = n - 1" by linarith
    with mid_le in_range have "mid = mid0" by linarith
    have "has_py (ls ! mid0)"
    proof (rule ccontr)
      assume "\<not> has_py (ls ! mid0)"
      then have "mid = mid0 - 1" by (simp add: mid_def)
      moreover have "1 \<le> mid0" by (simp add: mid0_def)
      ultimately show False using \<open>mid = mid0\<close> by linarith
    qed
    moreover have "ls \<noteq> []" using in_range n_def by auto
    moreover have "last ls = ls ! mid0"
      using \<open>mid = mid0\<close> mid_last \<open>ls \<noteq> []\<close> by (simp add: last_conv_nth n_def)
    ultimately have flag_s: "ls \<noteq> [] \<and> has_py (last ls)" by simp
    have rs': "replace CONTINUATION_STR [] s' = s'"
      using eq1 by (rule breaks_replace_eq)
    have "new \<noteq> []" "last new = ''...''"
      using mid_last by (simp_all add: new_def n_def)
    then have "splitlines s' = new"
      using splitlines_join[OF new_nb] s' by simp
    with \<open>last new = ''...''\<close> have "\<not> has_py (last (splitlines s'))"
      by (simp add: not_has_py_dots)
    then have ms': "loop_measure s' = 2 * breaks s'"
      unfolding loop_measure_def Let_def rs' by simp
    have "loop_measure s =
            2 * breaks s1 + (if ls \<noteq> [] \<and> has_py (last ls) then 1 else 0)"
      unfolding loop_measure_def Let_def s1_def ls_def ..
    with flag_s have "loop_measure s = 2 * breaks s1 + 1" by simp
    with ms' eq3 show ?thesis by linarith
  qed
qed

text \<open>The loop itself; \<open>capacity\<close> is \<open>self._capacity\<close>.\<close>

function remove_lines_loop :: "string \<Rightarrow> int \<Rightarrow> error + string" where
  "remove_lines_loop errors_string capacity =
     (if int (length errors_string) > capacity
      then (case minify_by_removing_lines errors_string of
              Inl e \<Rightarrow> Inl e
            | Inr s \<Rightarrow> remove_lines_loop s capacity)
      else Inr errors_string)"
  by pat_completeness auto
termination
proof (relation "measure (\<lambda>(s, c). loop_measure s)", goal_cases)
  case 1
  show ?case by simp
next
  case (2 errors_string capacity s)
  from removing_lines_decreases[OF 2(2)] show ?case by simp
qed

declare remove_lines_loop.simps [simp del]

subsection \<open>The strategies in order\<close>

text \<open>
  \<open>ErrorMinifier._get_minified_errors\<close>, on the list that \<open>self._errors_list\<close> refers to and
  on \<open>self._capacity\<close>. Each loop \<open>for i, error in enumerate(errors_list): errors_list[i] =
  f(error)\<close> replaces every element of the list by its image, which is \<open>map f\<close>. The list is
  changed in place, so the function returns it together with the result; it is returned
  also when the last loop raises.
\<close>

definition get_minified_errors ::
  "string list \<Rightarrow> int option \<Rightarrow> string list \<times> (error + string)" where
  "get_minified_errors errors_list capacity =
     (let errors_string = join [CHR 0x0A] errors_list
      in case capacity of
           None \<Rightarrow> (errors_list, Inr errors_string)
         | Some cap \<Rightarrow>
             if errors_list = [] then (errors_list, Inr [])
             else if int (length errors_string) \<le> cap then (errors_list, Inr errors_string)
             else
               let errors_list = map (\<lambda>e. minify_by_shortening_file_names e 5) errors_list;
                   errors_string = join [CHR 0x0A] errors_list
               in if int (length errors_string) \<le> cap then (errors_list, Inr errors_string)
                  else
                    let errors_list =
                          map (\<lambda>e. minify_by_shortening_file_names e 4) errors_list;
                        errors_string = join [CHR 0x0A] errors_list
                    in if int (length errors_string) \<le> cap
                       then (errors_list, Inr errors_string)
                       else
                         let errors_list =
                               map minify_by_removing_nested_exceptions errors_list;
                             errors_string = join [CHR 0x0A] errors_list
                         in if int (length errors_string) \<le> cap
                            then (errors_list, Inr errors_string)
                            else (errors_list, remove_lines_loop errors_string cap))"

text \<open>
  An \<open>ErrorMinifier\<close> object. Its field \<open>_errors_list\<close> is a reference to the list object
  the caller passed, not a copy: lists live in a store, indexed by their address, and the
  caller and the minifier hold the same address.
\<close>

type_synonym store = "nat \<Rightarrow> string list"

record ErrorMinifier =
  m_errors_list :: nat
  m_capacity :: "int option"
  m_minified_error :: string

definition ErrorMinifier_init :: "store \<Rightarrow> nat \<Rightarrow> ErrorMinifier" where
  "ErrorMinifier_init h errors_list =
     \<lparr>m_errors_list = errors_list, m_capacity = None,
      m_minified_error = join [CHR 0x0A] (h errors_list)\<rparr>"

text \<open>\<open>ErrorMinifier.set_capacity\<close>: the new store, the object afterwards, and the
  exception if one was raised (then \<open>_minified_error\<close> keeps its old value).\<close>

definition set_capacity ::
  "store \<Rightarrow> ErrorMinifier \<Rightarrow> int \<Rightarrow> store \<times> ErrorMinifier \<times> error option" where
  "set_capacity h self capacity =
     (let self = self\<lparr>m_capacity := Some capacity\<rparr>;
          (errors_list, res) = get_minified_errors (h (m_errors_list self)) (m_capacity self);
          h = h(m_errors_list self := errors_list)
      in case res of
           Inl e \<Rightarrow> (h, self, Some e)
         | Inr s \<Rightarrow> (h, self\<lparr>m_minified_error := s\<rparr>, None))"

text \<open>\<open>ErrorMinifier.__str__\<close>.\<close>

definition ErrorMinifier_str :: "ErrorMinifier \<Rightarrow> string" where
  "ErrorMinifier_str self =
     (if m_minified_error self \<noteq> []
      then ''```'' @ [CHR 0x0A] @ strip (m_minified_error self) @ [CHR 0x0A] @ ''```''
      else [])"

section \<open>Building the issue URL\<close>

definition MAX_URL_LENGTH :: nat where
  "MAX_URL_LENGTH = 2035"

text \<open>
  What \<open>_build_issue_info_tup\<close> has collected before it minifies: \<open>template\<close> is
  \<open>_ISSUES_TEMPLATE.format(**format_dict)\<close> as a function of the text in the
  \<open>errors_string\<close> slot, \<open>urlencode\<close> is the library function on the query dictionary (a
  list of pairs), \<open>raw_issues_url\<close> is the repository's issue page, \<open>failed\<close> is
  \<open>command_log_file and command_log_file.failed()\<close>.
\<close>

record issue_env =
  template :: "string \<Rightarrow> string"
  urlencode :: "(string \<times> string) list \<Rightarrow> string"
  raw_issues_url :: string
  failed :: bool
  pretty_url_name :: string
  is_ext :: bool

text \<open>
  \<open>_get_minified_issue_url\<close>. The entry \<open>errors_string\<close> of \<open>format_dict\<close> is either the
  empty string (\<open>None\<close> here) or an \<open>ErrorMinifier\<close>; the copies of the dictionary share that
  object.
\<close>

definition get_minified_issue_url ::
  "issue_env \<Rightarrow> store \<Rightarrow> ErrorMinifier option \<Rightarrow> int
     \<Rightarrow> store \<times> ErrorMinifier option \<times> (error + string \<times> string)" where
  "get_minified_issue_url env h minified_errors capacity =
     (let no_errors_issue_body = template env [];
          (h, minified_errors, raised) =
            (case minified_errors of
               None \<Rightarrow> (h, None, None)
             | Some m \<Rightarrow>
                 (let (h', m', r) = set_capacity h m (capacity - int (length no_errors_issue_body))
                  in (h', Some m', r)))
      in case raised of
           Some e \<Rightarrow> (h, minified_errors, Inl e)
         | None \<Rightarrow>
             let minified_issue_body =
                   template env (case minified_errors of None \<Rightarrow> [] | Some m \<Rightarrow> ErrorMinifier_str m);
                 formatted_issues_url = raw_issues_url env;
                 formatted_issues_url =
                   (if \<not> startswith formatted_issues_url ''http''
                    then ''https://'' @ formatted_issues_url else formatted_issues_url);
                 query_dict = [(''body'', minified_issue_body)] @
                   (if failed env then [(''template'', ''Bug_report.md'')] else []);
                 new_placeholder = urlencode env query_dict;
                 formatted_issues_url = formatted_issues_url @ ''?'' @ new_placeholder
             in (h, minified_errors, Inr (formatted_issues_url, minified_issue_body)))"

text \<open>The loop \<open>while len(formatted_issues_url) > _MAX_URL_LENGTH and tries < 25\<close>.\<close>

function url_retry_loop ::
  "issue_env \<Rightarrow> store \<Rightarrow> ErrorMinifier option \<Rightarrow> string \<Rightarrow> string \<Rightarrow> int \<Rightarrow> nat
     \<Rightarrow> error + (store \<times> ErrorMinifier option \<times> string \<times> string \<times> nat)" where
  "url_retry_loop env h me formatted_issues_url minified_issue_body capacity tries =
     (if length formatted_issues_url > MAX_URL_LENGTH \<and> tries < 25
      then (case get_minified_issue_url env h me capacity of
              (h', me', Inl e) \<Rightarrow> Inl e
            | (h', me', Inr (url', body')) \<Rightarrow>
                url_retry_loop env h' me' url' body'
                  (capacity - (int (length url') - int MAX_URL_LENGTH)) (tries + 1))
      else Inr (h, me, formatted_issues_url, minified_issue_body, tries))"
  by pat_completeness auto
termination
  by (relation "measure (\<lambda>(env, h, me, u, b, c, tries). 25 - tries)") auto

declare url_retry_loop.simps [simp del]

text \<open>\<open>_ISSUES_TEMPLATE_PREFIX.format(name)\<close>.\<close>

definition ISSUES_TEMPLATE_PREFIX_format :: "string \<Rightarrow> string" where
  "ISSUES_TEMPLATE_PREFIX_format name =
     [CHR 0x0A, CHR 0x0A] @ ''BEGIN TEMPLATE'' @ [CHR 0x0A] @ ''==============='' @ [CHR 0x0A] @
     ''**A browser has been opened to '' @ name @ '' to create an issue.**'' @ [CHR 0x0A] @
     ''**You can also run `az feedback --verbose` to emit the full output to stderr.**'' @
     [CHR 0x0A]"

text \<open>
  \<open>_build_issue_info_tup\<close> from the point where \<open>format_dict\<close> is complete. The result holds
  the returned tuple, the warnings logged, and the number of times the loop called
  \<open>_get_minified_issue_url\<close>.
\<close>

record issue_info =
  prefix_text :: string
  formatted_url :: string
  original_issue_body :: string
  info_is_ext :: bool
  warnings :: "string list"
  retries :: nat

definition build_issue_info_tup ::
  "issue_env \<Rightarrow> store \<Rightarrow> ErrorMinifier option \<Rightarrow> error + issue_info" where
  "build_issue_info_tup env h errors =
     (let original = template env (case errors of None \<Rightarrow> [] | Some m \<Rightarrow> ErrorMinifier_str m);
          capacity = int MAX_URL_LENGTH
      in case get_minified_issue_url env h errors capacity of
           (h, me, Inl e) \<Rightarrow> Inl e
         | (h, me, Inr (formatted_issues_url, minified_issue_body)) \<Rightarrow>
             (let capacity = capacity - (int (length formatted_issues_url) - int MAX_URL_LENGTH)
              in case url_retry_loop env h me formatted_issues_url minified_issue_body
                        capacity 0 of
                   Inl e \<Rightarrow> Inl e
                 | Inr (h, me, formatted_issues_url, minified_issue_body, tries) \<Rightarrow>
                     (let too_long = length formatted_issues_url > MAX_URL_LENGTH
                      in Inr \<lparr>prefix_text = ISSUES_TEMPLATE_PREFIX_format (pretty_url_name env),
                              formatted_url =
                                (if too_long then take MAX_URL_LENGTH formatted_issues_url
                                 else formatted_issues_url),
                              original_issue_body = original,
                              info_is_ext = is_ext env,
                              warnings =
                                (if too_long
                                 then [''Failed to properly minify issue url. Please use 'az feedback --verbose' to get the full issue output.'']
                                 else []),
                              retries = tries\<rparr>)))"

section \<open>Command log files\<close>

text \<open>The named tuple \<open>_LogMetadataType\<close>; \<open>'s\<close> is the type of \<open>total_seconds()\<close>.\<close>

record 's LogMetadata =
  cmd :: string
  seconds_ago :: 's
  file_path :: string
  meta_p_id :: int

definition UNKNOWN_CMD :: string where
  "UNKNOWN_CMD = ''Unknown''"

text \<open>
  What the module takes from outside: \<open>strptime s\<close> is
  \<open>datetime.datetime.strptime(s, "%Y-%m-%d-%H-%M-%S")\<close> with \<open>None\<close> for its \<open>ValueError\<close>,
  \<open>seconds_between now stamp\<close> is \<open>(now - stamp).total_seconds()\<close>, \<open>unknown_command\<close> is the
  constant \<open>_UNKNOWN_COMMAND\<close> of \<open>azure.cli.core.azlogging\<close>, \<open>clock_now\<close> is
  \<open>datetime.datetime.now()\<close>, and \<open>isfile\<close> is \<open>os.path.isfile\<close>.
\<close>

record ('dt, 's) log_env =
  strptime :: "string \<Rightarrow> 'dt option"
  seconds_between :: "'dt \<Rightarrow> 'dt \<Rightarrow> 's"
  unknown_command :: string
  clock_now :: 'dt
  isfile :: "string \<Rightarrow> bool"

text \<open>
  \<open>CommandLogFile._get_command_metadata_from_file\<close>. The \<open>try\<close> block covers the split of
  the file name into five fields, \<open>strptime\<close> and the command name: a \<open>ValueError\<close> there
  gives \<open>None\<close>. The conversion \<open>int(poss_pid)\<close> stands in the \<open>return\<close> statement after
  the block, where nothing catches its \<open>ValueError\<close>.
\<close>

definition get_command_metadata_from_file ::
  "('dt, 's) log_env \<Rightarrow> string \<Rightarrow> 'dt \<Rightarrow> error + 's LogMetadata option" where
  "get_command_metadata_from_file env log_file_path time_now =
     (if log_file_path = [] then Inr None
      else
        let file_name = basename log_file_path;
            fields = split_chr (CHR ''.'') file_name
        in if length fields \<noteq> 5 then Inr None
           else
             (let poss_date = fields ! 0; poss_time = fields ! 1;
                  poss_command = fields ! 2; poss_pid = fields ! 3
              in case strptime env (poss_date @ ''-'' @ poss_time) of
                   None \<Rightarrow> Inr None
                 | Some date_time_stamp \<Rightarrow>
                     (let command =
                            (if poss_command \<noteq> unknown_command env
                             then ''az '' @ replace ''_'' '' '' poss_command
                             else UNKNOWN_CMD);
                          total_seconds = seconds_between env time_now date_time_stamp
                      in case py_int poss_pid of
                           None \<Rightarrow> Inl ValueError
                         | Some n \<Rightarrow>
                             Inr (Some \<lparr>cmd = command, seconds_ago = total_seconds,
                                        file_path = log_file_path, meta_p_id = n\<rparr>))))"

text \<open>The fields of a \<open>CommandLogFile\<close> that its constructor sets.\<close>

record ('dt, 's) CommandLogFile =
  log_file_path :: string
  time_now :: 'dt
  metadata :: "'s LogMetadata option"

text \<open>\<open>CommandLogFile.__init__(log_file_path, time_now)\<close>; the type of \<open>time_now\<close> rules
  out the \<open>TypeError\<close>.\<close>

definition CommandLogFile_init ::
  "('dt, 's) log_env \<Rightarrow> string \<Rightarrow> 'dt option \<Rightarrow> error + ('dt, 's) CommandLogFile" where
  "CommandLogFile_init env path time_now_arg =
     (if \<not> isfile env path then Inl ValueError
      else
        let now = (case time_now_arg of None \<Rightarrow> clock_now env | Some t \<Rightarrow> t)
        in case get_command_metadata_from_file env path now of
             Inl e \<Rightarrow> Inl e
           | Inr md \<Rightarrow> Inr \<lparr>log_file_path = path, time_now = now, metadata = md\<rparr>)"

text \<open>
  The loop of \<open>_get_command_log_files\<close> over the sorted names that end in \<open>.log\<close>. A
  file whose metadata is \<open>None\<close> is left out (with a debug message); an exception of the
  constructor ends the loop and the function.
\<close>

fun command_log_files_loop ::
  "('dt, 's) log_env \<Rightarrow> string \<Rightarrow> 'dt option \<Rightarrow> ('dt, 's) CommandLogFile list \<Rightarrow> string list
     \<Rightarrow> error + ('dt, 's) CommandLogFile list" where
  "command_log_files_loop env dir time_now_arg command_log_files [] = Inr command_log_files"
| "command_log_files_loop env dir time_now_arg command_log_files (file_name # rest) =
     (case CommandLogFile_init env (path_join dir file_name) time_now_arg of
        Inl e \<Rightarrow> Inl e
      | Inr cmd_log_file \<Rightarrow>
          command_log_files_loop env dir time_now_arg
            (if metadata cmd_log_file \<noteq> None then command_log_files @ [cmd_log_file]
             else command_log_files) rest)"

definition get_command_log_files ::
  "('dt, 's) log_env \<Rightarrow> string \<Rightarrow> string list \<Rightarrow> 'dt option
     \<Rightarrow> error + ('dt, 's) CommandLogFile list" where
  "get_command_log_files env command_logs_dir listing time_now_arg =
     (let files = filter (\<lambda>file_name. endswith file_name ''.log'') listing;
          files = sort files
      in command_log_files_loop env command_logs_dir time_now_arg [] files)"

section \<open>The repository upsert request model\<close>

text \<open>The values a Python caller may pass for an attribute; the constructor looks at
  none of them.\<close>

datatype py_value = PyNone | PyStr string | PyInt int

record RepositoryUpsertRequestProperties =
  id_attr :: py_value
  name_attr :: py_value

text \<open>\<open>RepositoryUpsertRequestProperties.__init__(self, id=None, name=None)\<close>: an argument
  that is left out is \<open>None\<close> here and takes the default.\<close>

definition RepositoryUpsertRequestProperties_init ::
  "py_value option \<Rightarrow> py_value option \<Rightarrow> RepositoryUpsertRequestProperties" where
  "RepositoryUpsertRequestProperties_init id_arg name_arg =
     \<lparr>id_attr = (case id_arg of None \<Rightarrow> PyNone | Some v \<Rightarrow> v),
      name_attr = (case name_arg of None \<Rightarrow> PyNone | Some v \<Rightarrow> v)\<rparr>"

section \<open>The minifier in the words of the specification\<close>

text \<open>
  The specification describes the minifier by its attempts: the join as it is, the join
  with file paths shortened to five segments, then to four, then with nested exceptions
  collapsed; each works on the outcome of the one before. The result is the first attempt
  within the capacity, and when there is none, lines are removed from the middle of the
  last attempt until the capacity is met.
\<close>

definition fits :: "int \<Rightarrow> string \<Rightarrow> bool" where
  "fits cap s = (int (length s) \<le> cap)"

definition shortened5 :: "string list \<Rightarrow> string list" where
  "shortened5 errs = map (\<lambda>e. minify_by_shortening_file_names e 5) errs"

definition shortened4 :: "string list \<Rightarrow> string list" where
  "shortened4 errs = map (\<lambda>e. minify_by_shortening_file_names e 4) (shortened5 errs)"

definition collapsed :: "string list \<Rightarrow> string list" where
  "collapsed errs = map minify_by_removing_nested_exceptions (shortened4 errs)"

definition strategy_attempts :: "string list \<Rightarrow> string list" where
  "strategy_attempts errs =
     [join [CHR 0x0A] errs, join [CHR 0x0A] (shortened5 errs),
      join [CHR 0x0A] (shortened4 errs), join [CHR 0x0A] (collapsed errs)]"

text \<open>Removing lines from the middle \<open>k\<close> times.\<close>

fun remove_lines_n :: "nat \<Rightarrow> string \<Rightarrow> error + string" where
  "remove_lines_n 0 s = Inr s"
| "remove_lines_n (Suc k) s =
     (case minify_by_removing_lines s of Inl e \<Rightarrow> Inl e | Inr s' \<Rightarrow> remove_lines_n k s')"

definition minified_by_strategies :: "string list \<Rightarrow> int \<Rightarrow> error + string" where
  "minified_by_strategies errs cap =
     (case find (fits cap) (strategy_attempts errs) of
        Some s \<Rightarrow> Inr s
      | None \<Rightarrow> remove_lines_loop (join [CHR 0x0A] (collapsed errs)) cap)"

subsection \<open>The strategies one by one\<close>
















text \<open>A traceback of three lines, used as a concrete input below.\<close>

definition example_traceback :: string where
  "example_traceback =
     ''Traceback:'' @ [CHR 0x0A] @
     ''  File '' @ [CHR 0x22] @ ''/a/b/c/d/e/f/g.py'' @ [CHR 0x22] @ '', line 5, in foo'' @
     [CHR 0x0A] @ ''    x = 1''"

text \<open>An environment whose issue body alone has 3000 characters, used as a concrete
  input below.\<close>

definition example_issue_env :: issue_env where
  "example_issue_env =
     \<lparr>template = (\<lambda>e. replicate 3000 (CHR ''x'') @ e),
      urlencode = (\<lambda>q. concat (map (\<lambda>(k, v). k @ ''='' @ v) q)),
      raw_issues_url = ''https://github.com/Azure/azure-cli/issues/new'',
      failed = False, pretty_url_name = ''aka.ms/azcli/issues'', is_ext = False\<rparr>"

text \<open>An error text with a nested exception, used as a concrete input below.\<close>

definition example_nested :: "string list" where
  "example_nested =
     [''E1'' @ [CHR 0x0A] @ ''During handling of the above exception'' @ [CHR 0x0A] @ ''E2'']"

section \<open>Properties of the log record parser\<close>

lemma startswith_append: "startswith (p @ s) p"
  by (induction p) auto

lemma endswith_single: "endswith s [c] \<longleftrightarrow> s \<noteq> [] \<and> last s = c"
  by (cases s rule: rev_cases) (auto simp: endswith_def)

text \<open>
  Claim C3. \<open>_get_info_from_log_line\<close> is said to return \<open>None\<close> for every line that is not
  a record of the expected process. For a line with the prefix and five fields whose first
  field is not an integer, \<open>int\<close> raises \<open>ValueError\<close> instead: here the line is the prefix
  followed by \<open>abc | t | INFO | cli | hello\<close>, whatever the prefix is.
\<close>

theorem get_info_from_log_line_raises_ValueError:
  "get_info_from_log_line pfx (pfx @ ''abc | t | INFO | cli | hello'') 1 = Inl ValueError"
proof -
  have s: "split_chr_max 4 (CHR ''|'') ''abc | t | INFO | cli | hello''
             = [''abc '', '' t '', '' INFO '', '' cli '', '' hello'']"
    by code_simp
  have p: "py_int (strip ''abc '') = None" by code_simp
  show ?thesis
    by (simp add: get_info_from_log_line_def startswith_append Let_def s p)
qed

text \<open>
  Claim C9. Every record that \<open>_get_info_from_log_line\<close> returns has a message that ends
  with a line feed.
\<close>

theorem log_msg_ends_with_newline:
  assumes "get_info_from_log_line pfx line pid = Inr (Some r)"
  shows "endswith (log_msg r) [CHR 0x0A]"
  using assms
  by (auto simp: get_info_from_log_line_def Let_def endswith_single
           split: if_splits option.splits)

theorem log_msg_ends_with_newline_witness:
  "get_info_from_log_line ''CMD-LOG-LINE-BEGIN '' ''CMD-LOG-LINE-BEGIN 12 | t | INFO | cli | hello world '' 12
     = Inr (Some \<lparr>p_id = 12, date_time = ''t'', level = ''INFO'', logger = ''cli'',
                  log_msg = ''hello world'' @ [CHR 0x0A]\<rparr>)
   \<and> endswith (''hello world'' @ [CHR 0x0A]) [CHR 0x0A]"
proof -
  have h: "get_info_from_log_line ''CMD-LOG-LINE-BEGIN '' ''CMD-LOG-LINE-BEGIN 12 | t | INFO | cli | hello world '' 12
     = Inr (Some \<lparr>p_id = 12, date_time = ''t'', level = ''INFO'', logger = ''cli'',
                  log_msg = ''hello world'' @ [CHR 0x0A]\<rparr>)"
    by code_simp
  from log_msg_ends_with_newline [OF h] h show ?thesis by simp
qed

text \<open>The loop of \<open>_get_log_record_list\<close> and the regrouping of the specification.\<close>

lemma regrouped_length:
  "length (regrouped pfx pid ls) = length (filter (\<lambda>l. new_record pfx pid l \<noteq> None) ls)"
  by (induction ls) (auto split: option.splits)

lemma log_record_loop_regrouped:
  "log_record_loop pfx pid prev acc ls = Inr (prev', acc') \<Longrightarrow>
   (case prev' of Some p \<Rightarrow> acc' @ [p] | None \<Rightarrow> acc') =
   (case prev of
      None \<Rightarrow> acc @ regrouped pfx pid ls
    | Some p \<Rightarrow>
        acc @ [p\<lparr>log_msg := log_msg p @ concat (takeWhile (\<lambda>l. new_record pfx pid l = None) ls)\<rparr>]
          @ regrouped pfx pid ls)"
proof (induction ls arbitrary: prev acc)
  case Nil
  then show ?case by (auto split: option.splits)
next
  case (Cons line rest)
  show ?case
  proof (cases "get_info_from_log_line pfx line pid")
    case (Inl e)
    with Cons.prems show ?thesis by simp
  next
    case (Inr res)
    show ?thesis
    proof (cases res)
      case None
      with Inr have nr: "new_record pfx pid line = None" by (simp add: new_record_def)
      show ?thesis
      proof (cases prev)
        case pn: None
        with Cons.prems Inr None
        have "log_record_loop pfx pid None acc rest = Inr (prev', acc')" by simp
        from Cons.IH[OF this] nr pn show ?thesis by simp
      next
        case (Some p)
        with Cons.prems Inr None
        have "log_record_loop pfx pid (Some (p\<lparr>log_msg := log_msg p @ line\<rparr>)) acc rest
                = Inr (prev', acc')" by simp
        from Cons.IH[OF this] nr Some show ?thesis by simp
      qed
    next
      case (Some r)
      with Inr have nr: "new_record pfx pid line = Some r" by (simp add: new_record_def)
      from Cons.prems Inr Some
      have "log_record_loop pfx pid (Some r)
              (case prev of Some p \<Rightarrow> acc @ [p] | None \<Rightarrow> acc) rest = Inr (prev', acc')"
        by simp
      from Cons.IH[OF this] nr show ?thesis by (cases prev) simp_all
    qed
  qed
qed

text \<open>
  Claim C4. When \<open>_get_log_record_list\<close> returns, its list is the regrouping of the lines:
  one record for each line recognised as a new record, in the order of the file, the lines
  that follow it up to the next recognised line appended to its message as they are and its
  other fields untouched.
\<close>

theorem get_log_record_list_regroups:
  assumes "get_log_record_list pfx log_fp pid = Inr rs"
  shows "rs = regrouped pfx pid log_fp \<and>
         length rs = length (filter (\<lambda>l. new_record pfx pid l \<noteq> None) log_fp)"
proof -
  from assms obtain prev' acc' where
    l: "log_record_loop pfx pid None [] log_fp = Inr (prev', acc')" and
    r: "rs = (case prev' of Some p \<Rightarrow> acc' @ [p] | None \<Rightarrow> acc')"
    by (auto simp: get_log_record_list_def split: sum.splits)
  from log_record_loop_regrouped[OF l] r have "rs = regrouped pfx pid log_fp" by simp
  then show ?thesis by (simp add: regrouped_length)
qed

theorem get_log_record_list_regroups_witness:
  "get_log_record_list ''C'' [''zz'', ''C1|a|b|c|d'', ''more'', ''C2|'', ''C1|e|f|g|h''] 1 =
     Inr [\<lparr>p_id = 1, date_time = ''a'', level = ''b'', logger = ''c'',
            log_msg = ''d'' @ [CHR 0x0A] @ ''moreC2|''\<rparr>,
          \<lparr>p_id = 1, date_time = ''e'', level = ''f'', logger = ''g'',
            log_msg = ''h'' @ [CHR 0x0A]\<rparr>]
   \<and> regrouped ''C'' 1 [''zz'', ''C1|a|b|c|d'', ''more'', ''C2|'', ''C1|e|f|g|h''] =
       [\<lparr>p_id = 1, date_time = ''a'', level = ''b'', logger = ''c'',
            log_msg = ''d'' @ [CHR 0x0A] @ ''moreC2|''\<rparr>,
          \<lparr>p_id = 1, date_time = ''e'', level = ''f'', logger = ''g'',
            log_msg = ''h'' @ [CHR 0x0A]\<rparr>]"
proof -
  have h: "get_log_record_list ''C'' [''zz'', ''C1|a|b|c|d'', ''more'', ''C2|'', ''C1|e|f|g|h''] 1 =
     Inr [\<lparr>p_id = 1, date_time = ''a'', level = ''b'', logger = ''c'',
            log_msg = ''d'' @ [CHR 0x0A] @ ''moreC2|''\<rparr>,
          \<lparr>p_id = 1, date_time = ''e'', level = ''f'', logger = ''g'',
            log_msg = ''h'' @ [CHR 0x0A]\<rparr>]"
    by code_simp
  from get_log_record_list_regroups [OF h] h show ?thesis by simp
qed

section \<open>Properties of the log file names\<close>

text \<open>
  Claim C5. A file name with five fields and a good date whose process id field is not an
  integer does not give \<open>None\<close>: \<open>int(poss_pid)\<close> raises \<open>ValueError\<close> outside the \<open>try\<close>
  block, and \<open>_get_command_log_files\<close> fails instead of skipping the file.
\<close>

theorem get_command_log_files_raises_ValueError:
  assumes "strptime env ''2019-01-01-12-00-00'' = Some t"
    and "isfile env ''/logs/2019-01-01.12-00-00.group_list.abc.log''"
  shows "get_command_metadata_from_file env ''/logs/2019-01-01.12-00-00.group_list.abc.log'' now
           = Inl ValueError
       \<and> get_command_log_files env ''/logs'' [''2019-01-01.12-00-00.group_list.abc.log''] tn
           = Inl ValueError"
proof -
  have b: "basename ''/logs/2019-01-01.12-00-00.group_list.abc.log''
             = ''2019-01-01.12-00-00.group_list.abc.log''"
    by code_simp
  have s: "split_chr (CHR ''.'') ''2019-01-01.12-00-00.group_list.abc.log''
             = [''2019-01-01'', ''12-00-00'', ''group_list'', ''abc'', ''log'']"
    by code_simp
  have p: "py_int ''abc'' = None" by code_simp
  have md: "get_command_metadata_from_file env ''/logs/2019-01-01.12-00-00.group_list.abc.log'' x
              = Inl ValueError" for x
    using assms(1) by (simp add: get_command_metadata_from_file_def b s p Let_def)
  have e: "endswith ''2019-01-01.12-00-00.group_list.abc.log'' ''.log''" by code_simp
  have j: "path_join ''/logs'' ''2019-01-01.12-00-00.group_list.abc.log''
             = ''/logs/2019-01-01.12-00-00.group_list.abc.log''"
    by code_simp
  have "get_command_log_files env ''/logs'' [''2019-01-01.12-00-00.group_list.abc.log''] tn
          = Inl ValueError"
    using assms(2) by (simp add: get_command_log_files_def e j CommandLogFile_init_def md)
  with md show ?thesis by simp
qed

theorem get_command_log_files_raises_ValueError_witness:
  "get_command_log_files
     \<lparr>strptime = (\<lambda>s. if s = ''2019-01-01-12-00-00'' then Some (0::int) else None),
      seconds_between = (\<lambda>a b. a - b), unknown_command = ''unknown_command'',
      clock_now = 100, isfile = (\<lambda>p. True)\<rparr>
     ''/logs'' [''2019-01-01.12-00-00.group_list.abc.log''] None = Inl ValueError"
  using get_command_log_files_raises_ValueError
    [of "\<lparr>strptime = (\<lambda>s. if s = ''2019-01-01-12-00-00'' then Some (0::int) else None),
      seconds_between = (\<lambda>a b. a - b), unknown_command = ''unknown_command'',
      clock_now = 100, isfile = (\<lambda>p. True)\<rparr>" 0 100 None]
  by simp

text \<open>The names that the \<open>try\<close> block does catch: a wrong number of fields or a date that
  \<open>strptime\<close> rejects give \<open>None\<close>.\<close>

lemma get_command_metadata_from_file_malformed:
  assumes "length (split_chr (CHR ''.'') (basename path)) \<noteq> 5 \<or>
           strptime env (split_chr (CHR ''.'') (basename path) ! 0 @ ''-'' @
                         split_chr (CHR ''.'') (basename path) ! 1) = None"
  shows "get_command_metadata_from_file env path now = Inr None"
  using assms by (auto simp: get_command_metadata_from_file_def Let_def)

section \<open>Properties of the request model\<close>

text \<open>
  Claim C8. \<open>RepositoryUpsertRequestProperties(id, name)\<close> stores both arguments as they are
  passed, whatever they are, and an argument left out is \<open>None\<close>.
\<close>

theorem RepositoryUpsertRequestProperties_init_stores:
  "RepositoryUpsertRequestProperties_init (Some i) (Some n) = \<lparr>id_attr = i, name_attr = n\<rparr>
   \<and> RepositoryUpsertRequestProperties_init None None = \<lparr>id_attr = PyNone, name_attr = PyNone\<rparr>
   \<and> RepositoryUpsertRequestProperties_init (Some i) None = \<lparr>id_attr = i, name_attr = PyNone\<rparr>
   \<and> RepositoryUpsertRequestProperties_init None (Some n) = \<lparr>id_attr = PyNone, name_attr = n\<rparr>"
  by (simp add: RepositoryUpsertRequestProperties_init_def)


section \<open>Properties of the error minifier\<close>

lemma minify_by_removing_lines_IndexError:
  "minify_by_removing_lines s = Inl IndexError \<longleftrightarrow>
   length (splitlines (replace CONTINUATION_STR [] s)) \<le> 2"
  by (auto simp: minify_by_removing_lines_def Let_def)

lemma remove_lines_loop_fits:
  "remove_lines_loop s cap = Inr r \<Longrightarrow> fits cap r"
proof (induction s cap rule: remove_lines_loop.induct)
  case (1 s cap)
  show ?case
  proof (cases "int (length s) > cap")
    case False
    with 1(2) show ?thesis by (simp add: remove_lines_loop.simps fits_def)
  next
    case True
    with 1(2) obtain s' where s': "minify_by_removing_lines s = Inr s'"
      and "remove_lines_loop s' cap = Inr r"
      by (subst (asm) remove_lines_loop.simps) (auto split: sum.splits)
    with 1(1)[OF True s'] show ?thesis by simp
  qed
qed

lemma remove_lines_loop_reaches:
  "remove_lines_n k s = Inr t \<Longrightarrow> fits cap t \<Longrightarrow> \<exists>r. remove_lines_loop s cap = Inr r"
proof (induction k arbitrary: s)
  case 0
  then show ?case by (simp add: remove_lines_loop.simps fits_def)
next
  case (Suc k)
  show ?case
  proof (cases "int (length s) > cap")
    case False
    then show ?thesis by (simp add: remove_lines_loop.simps)
  next
    case True
    from Suc.prems(1) obtain s' where s': "minify_by_removing_lines s = Inr s'"
      and "remove_lines_n k s' = Inr t"
      by (auto split: sum.splits)
    with Suc.IH[of s'] Suc.prems(2) obtain r where "remove_lines_loop s' cap = Inr r" by blast
    with True s' show ?thesis by (subst remove_lines_loop.simps) simp
  qed
qed

text \<open>The code's cascade of early returns is the first fitting attempt of the specification,
  and the list it leaves behind is the one of the last strategy it applied.\<close>

lemma get_minified_errors_eq:
  assumes "errs \<noteq> []"
  shows "snd (get_minified_errors errs (Some cap)) = minified_by_strategies errs cap"
  using assms
  by (simp add: get_minified_errors_def minified_by_strategies_def strategy_attempts_def
        Let_def fits_def shortened5_def shortened4_def collapsed_def)

lemma get_minified_errors_list:
  assumes "errs \<noteq> []"
  shows "fst (get_minified_errors errs (Some cap)) =
           (if fits cap (join [CHR 0x0A] errs) then errs
            else if fits cap (join [CHR 0x0A] (shortened5 errs)) then shortened5 errs
            else if fits cap (join [CHR 0x0A] (shortened4 errs)) then shortened4 errs
            else collapsed errs)"
  using assms
  by (simp add: get_minified_errors_def Let_def fits_def shortened5_def shortened4_def
        collapsed_def)

lemma get_minified_errors_empty: "get_minified_errors [] (Some cap) = ([], Inr [])"
  by (simp add: get_minified_errors_def)

lemma minified_by_strategies_fits:
  "minified_by_strategies errs cap = Inr s \<Longrightarrow> fits cap s"
  by (auto simp: minified_by_strategies_def split: option.splits
           dest: remove_lines_loop_fits find_Some_iff[THEN iffD1])

lemma minified_by_strategies_achieves:
  assumes "(\<exists>s\<in>set (strategy_attempts errs). fits cap s) \<or>
           (\<exists>k s. remove_lines_n k (join [CHR 0x0A] (collapsed errs)) = Inr s \<and> fits cap s)"
  shows "\<exists>r. minified_by_strategies errs cap = Inr r"
proof (cases "find (fits cap) (strategy_attempts errs)")
  case (Some s)
  then show ?thesis by (simp add: minified_by_strategies_def)
next
  case None
  then have "\<not> (\<exists>s\<in>set (strategy_attempts errs). fits cap s)"
    by (simp add: find_None_iff)
  with assms obtain k s where
    "remove_lines_n k (join [CHR 0x0A] (collapsed errs)) = Inr s" "fits cap s" by blast
  from remove_lines_loop_reaches[OF this] None show ?thesis
    by (simp add: minified_by_strategies_def)
qed

lemma set_capacity_unfold:
  "set_capacity h self cap =
     (h(m_errors_list self := fst (get_minified_errors (h (m_errors_list self)) (Some cap))),
      (case snd (get_minified_errors (h (m_errors_list self)) (Some cap)) of
         Inl e \<Rightarrow> self\<lparr>m_capacity := Some cap\<rparr>
       | Inr s \<Rightarrow> self\<lparr>m_capacity := Some cap, m_minified_error := s\<rparr>),
      (case snd (get_minified_errors (h (m_errors_list self)) (Some cap)) of
         Inl e \<Rightarrow> Some e | Inr s \<Rightarrow> None))"
  by (simp add: set_capacity_def Let_def split: prod.splits sum.splits)

text \<open>
  Claim C7. \<open>set_capacity\<close> is said never to raise. With the single error \<open>abc\<close> and the
  capacity 2 no strategy shortens the string, the last resort splits it into one line and
  reads \<open>lines[1]\<close>: \<open>IndexError\<close>. The same happens whenever fewer than three lines are
  left and the string is still too long (lemma \<open>minify_by_removing_lines_IndexError\<close>).
\<close>

theorem set_capacity_raises_IndexError:
  "snd (snd (set_capacity (\<lambda>a. [''abc'']) (ErrorMinifier_init (\<lambda>a. [''abc'']) 0) 2))
     = Some IndexError"
proof -
  have "get_minified_errors [''abc''] (Some 2) = ([''abc''], Inl IndexError)"
    by code_simp
  then show ?thesis
    by (simp add: set_capacity_unfold ErrorMinifier_init_def)
qed

text \<open>
  Claim C10. The minifier keeps the address of the caller's list. When the join exceeds the
  capacity, \<open>set_capacity\<close> leaves at that address the list of the shortened errors (of the
  last shortening it applied) and touches no other list; a later call reads that list, so
  with a capacity that is large enough it returns the join of the shortened errors.
\<close>

theorem set_capacity_overwrites_callers_list:
  assumes "h a \<noteq> []" and "\<not> fits cap (join [CHR 0x0A] (h a))"
    and "set_capacity h (ErrorMinifier_init h a) cap = (h', self', raised)"
  shows "m_errors_list self' = a \<and>
         h' a = (if fits cap (join [CHR 0x0A] (shortened5 (h a))) then shortened5 (h a)
                 else if fits cap (join [CHR 0x0A] (shortened4 (h a))) then shortened4 (h a)
                 else collapsed (h a)) \<and>
         (\<forall>b. b \<noteq> a \<longrightarrow> h' b = h b) \<and>
         (\<forall>cap2. fits cap2 (join [CHR 0x0A] (h' a)) \<longrightarrow>
            snd (snd (set_capacity h' self' cap2)) = None \<and>
            m_minified_error (fst (snd (set_capacity h' self' cap2))) = join [CHR 0x0A] (h' a))"
proof -
  from assms(3) have a: "m_errors_list self' = a"
    by (auto simp: set_capacity_unfold ErrorMinifier_init_def split: sum.splits)
  from assms have l: "h' a =
      (if fits cap (join [CHR 0x0A] (shortened5 (h a))) then shortened5 (h a)
       else if fits cap (join [CHR 0x0A] (shortened4 (h a))) then shortened4 (h a)
       else collapsed (h a))"
    by (auto simp: set_capacity_unfold ErrorMinifier_init_def get_minified_errors_list)
  from assms(3) have o: "\<forall>b. b \<noteq> a \<longrightarrow> h' b = h b"
    by (auto simp: set_capacity_unfold ErrorMinifier_init_def)
  have s: "snd (snd (set_capacity h' self' cap2)) = None \<and>
           m_minified_error (fst (snd (set_capacity h' self' cap2))) = join [CHR 0x0A] (h' a)"
    if "fits cap2 (join [CHR 0x0A] (h' a))" for cap2
  proof -
    have "get_minified_errors (h' a) (Some cap2) = (h' a, Inr (join [CHR 0x0A] (h' a)))"
      using that by (cases "h' a = []") (simp_all add: get_minified_errors_def fits_def)
    then show ?thesis using a by (simp add: set_capacity_unfold)
  qed
  from a l o s show ?thesis by blast
qed

theorem set_capacity_overwrites_callers_list_witness:
  "fst (set_capacity (\<lambda>a. [example_traceback])
          (ErrorMinifier_init (\<lambda>a. [example_traceback]) 0) 50) 0
     = [''Traceback:'' @ [CHR 0x0A] @ ''c/d/e/f/g.py, ln 5, in foo'' @ [CHR 0x0A] @ ''    x = 1'']
   \<and> m_minified_error (fst (snd (set_capacity
        (fst (set_capacity (\<lambda>a. [example_traceback])
                (ErrorMinifier_init (\<lambda>a. [example_traceback]) 0) 50))
        (fst (snd (set_capacity (\<lambda>a. [example_traceback])
                (ErrorMinifier_init (\<lambda>a. [example_traceback]) 0) 50))) 1000)))
     = ''Traceback:'' @ [CHR 0x0A] @ ''c/d/e/f/g.py, ln 5, in foo'' @ [CHR 0x0A] @ ''    x = 1''
   \<and> join [CHR 0x0A] [example_traceback] \<noteq>
       ''Traceback:'' @ [CHR 0x0A] @ ''c/d/e/f/g.py, ln 5, in foo'' @ [CHR 0x0A] @ ''    x = 1''"
proof -
  let ?h = "\<lambda>a::nat. [example_traceback]"
  let ?m = "ErrorMinifier_init ?h 0"
  let ?short = "''Traceback:'' @ [CHR 0x0A] @ ''c/d/e/f/g.py, ln 5, in foo'' @ [CHR 0x0A] @
                ''    x = 1''"
  have ne: "?h 0 \<noteq> []" by simp
  have nf: "\<not> fits 50 (join [CHR 0x0A] (?h 0))" by code_simp
  have s5: "shortened5 [example_traceback] = [?short]" by code_simp
  have f5: "fits 50 (join [CHR 0x0A] [?short])" by code_simp
  have f2: "fits 1000 (join [CHR 0x0A] [?short])" by code_simp
  have d: "join [CHR 0x0A] [example_traceback] \<noteq> ?short" by code_simp
  have eq: "set_capacity ?h ?m 50 =
              (fst (set_capacity ?h ?m 50), fst (snd (set_capacity ?h ?m 50)),
               snd (snd (set_capacity ?h ?m 50)))"
    by simp
  from set_capacity_overwrites_callers_list [OF ne nf eq] s5 f5 f2 d show ?thesis
    by simp
qed

section \<open>Properties of the issue URL\<close>

lemma url_retry_loop_bound:
  "url_retry_loop env h me u b c t = Inr (h', me', u', b', t') \<Longrightarrow> t \<le> 25 \<Longrightarrow>
   t' \<le> 25 \<and> (length u' \<le> MAX_URL_LENGTH \<or> t' = 25)"
proof (induction env h me u b c t rule: url_retry_loop.induct)
  case (1 env h me u b c t)
  show ?case
  proof (cases "length u > MAX_URL_LENGTH \<and> t < 25")
    case False
    with 1(2,3) show ?thesis by (auto simp: url_retry_loop.simps)
  next
    case True
    with 1(2) obtain h1 me1 u1 b1 where
      g: "get_minified_issue_url env h me c = (h1, me1, Inr (u1, b1))" and
      r: "url_retry_loop env h1 me1 u1 b1 (c - (int (length u1) - int MAX_URL_LENGTH)) (t + 1)
            = Inr (h', me', u', b', t')"
      by (subst (asm) url_retry_loop.simps) (auto split: prod.splits sum.splits)
    from True have "t + 1 \<le> 25" by simp
    from 1(1)[OF True g[symmetric] refl refl refl r this] show ?thesis .
  qed
qed

text \<open>
  When \<open>_build_issue_info_tup\<close> returns, its URL has at most 2035 characters; the loop has
  called \<open>_get_minified_issue_url\<close> again at most 25 times; and a warning is logged exactly
  when the URL was still too long after the loop, in which case the loop has used all 25
  tries and the URL is cut to 2035 characters.
\<close>

lemma build_issue_info_tup_bounded_on_return:
  assumes "build_issue_info_tup env h errors = Inr info"
  shows "length (formatted_url info) \<le> 2035 \<and> retries info \<le> 25 \<and>
         (warnings info \<noteq> [] \<longrightarrow> retries info = 25 \<and> length (formatted_url info) = 2035)"
proof -
  from assms obtain h0 me0 u0 b0 h1 me1 u b t where
    l: "url_retry_loop env h0 me0 u0 b0
          (int MAX_URL_LENGTH - (int (length u0) - int MAX_URL_LENGTH)) 0
          = Inr (h1, me1, u, b, t)" and
    i: "formatted_url info = (if length u > MAX_URL_LENGTH then take MAX_URL_LENGTH u else u)"
       "retries info = t"
       "warnings info \<noteq> [] \<longleftrightarrow> length u > MAX_URL_LENGTH"
    by (auto simp: build_issue_info_tup_def Let_def split: prod.splits sum.splits)
  from url_retry_loop_bound[OF l] have "t \<le> 25" "length u \<le> MAX_URL_LENGTH \<or> t = 25"
    by simp_all
  with i show ?thesis by (auto simp: MAX_URL_LENGTH_def)
qed

text \<open>With no errors to minify and a body of 3000 characters, the loop uses its 25 tries
  and the URL is cut.\<close>

lemma build_issue_info_tup_truncates_after_25_tries:
  "(case build_issue_info_tup example_issue_env (\<lambda>a. []) None of
      Inr info \<Rightarrow> length (formatted_url info) = 2035 \<and> retries info = 25 \<and>
                   warnings info \<noteq> []
    | Inl e \<Rightarrow> False)"
proof -
  let ?h = "\<lambda>a::nat. [] :: string list"
  let ?B = "replicate 3000 (CHR ''x'')"
  let ?U = "''https://github.com/Azure/azure-cli/issues/new'' @ ''?'' @ ''body='' @ ?B"
  have g: "get_minified_issue_url example_issue_env ?h None c = (?h, None, Inr (?U, ?B))" for c
    by (simp add: get_minified_issue_url_def example_issue_env_def Let_def)
  have long: "length ?U > MAX_URL_LENGTH"
    by (simp add: MAX_URL_LENGTH_def)
  have loop: "url_retry_loop example_issue_env ?h None ?U ?B c t = Inr (?h, None, ?U, ?B, 25)"
    if "25 - t = d" "t \<le> 25" for c t d
    using that
  proof (induction d arbitrary: c t)
    case 0
    then have "t = 25" by simp
    then show ?case by (subst url_retry_loop.simps) simp
  next
    case (Suc d)
    then have "t < 25" "25 - (t + 1) = d" "t + 1 \<le> 25" by simp_all
    with Suc.IH[of "t + 1"] long show ?case
      by (subst url_retry_loop.simps) (simp add: g del: length_append length_replicate)
  qed
  have "url_retry_loop example_issue_env ?h None ?U ?B c 0 = Inr (?h, None, ?U, ?B, 25)" for c
    by (rule loop[of 0 25]) simp_all
  with long have "\<exists>info. build_issue_info_tup example_issue_env ?h None = Inr info \<and>
      retries info = 25 \<and> warnings info \<noteq> []"
    by (simp add: build_issue_info_tup_def g Let_def del: length_append length_replicate)
  then obtain info where b: "build_issue_info_tup example_issue_env ?h None = Inr info"
    and i: "retries info = 25" "warnings info \<noteq> []" by blast
  from build_issue_info_tup_bounded_on_return [OF b] b i show ?thesis by simp
qed


section \<open>Lengths under the shortening strategies\<close>

text \<open>\<open>_shorten_file_name\<close> never makes a path longer. The loop keeps the sum of the lengths
  of \<open>new_name\<close> and of the rest of the path, with one more for the separator still to
  come while the rest has a name in it, below the length of the path.\<close>

lemma basename_no_slash: "CHR ''/'' \<notin> set (basename p)"
  by (auto simp: basename_def dest: set_takeWhileD)

lemma basename_subset: "set (basename p) \<subseteq> set p"
  by (auto simp: basename_def dest: set_takeWhileD)

lemma basename_dirname_length:
  "length (basename p) + length (dirname p) + (if has_name (dirname p) then 1 else 0)
     \<le> length p"
proof -
  define tw where "tw = takeWhile (\<lambda>c. c \<noteq> CHR ''/'') (rev p)"
  define dw where "dw = dropWhile (\<lambda>c. c \<noteq> CHR ''/'') (rev p)"
  have "tw @ dw = rev p" unfolding tw_def dw_def by (rule takeWhile_dropWhile_id)
  then have "length (tw @ dw) = length (rev p)" by (rule arg_cong)
  then have len: "length tw + length dw = length p" by simp
  have bn: "length (basename p) = length tw" by (simp add: basename_def tw_def)
  show ?thesis
  proof (cases "dw \<noteq> [] \<and> rev dw \<noteq> replicate (length dw) (CHR ''/'')")
    case True
    then have dn: "dirname p = rev (dropWhile (\<lambda>c. c = CHR ''/'') dw)"
      by (simp add: dirname_def dw_def Let_def)
    from True have "dropWhile (\<lambda>c. c \<noteq> CHR ''/'') (rev p) \<noteq> []" by (simp add: dw_def)
    from hd_dropWhile[OF this] have "hd dw = CHR ''/''" by (simp add: dw_def)
    with True obtain dw' where dw': "dw = CHR ''/'' # dw'" by (cases dw) auto
    have "length (dropWhile (\<lambda>c. c = CHR ''/'') dw') \<le> length dw'"
      by (rule length_dropWhile_le)
    with dw' have "length (dirname p) + 1 \<le> length dw" by (simp add: dn)
    with len bn show ?thesis by simp
  next
    case False
    then have dn: "dirname p = rev dw" by (auto simp: dirname_def dw_def Let_def)
    from False have "dw = [] \<or> rev dw = replicate (length dw) (CHR ''/'')" by blast
    then have "\<not> has_name (rev dw)"
    proof
      assume "dw = []" then show ?thesis by (simp add: has_name_def)
    next
      assume "rev dw = replicate (length dw) (CHR ''/'')"
      then have "set (rev dw) = set (replicate (length dw) (CHR ''/''))" by simp
      moreover have "set (replicate (length dw) (CHR ''/'')) \<subseteq> {CHR ''/''}" by auto
      ultimately show ?thesis by (auto simp: has_name_def)
    qed
    with len bn dn show ?thesis by simp
  qed
qed

lemma startswith_single: "startswith b [c] \<longleftrightarrow> b \<noteq> [] \<and> hd b = c"
  by (cases b) auto

lemma path_join_basename:
  assumes "\<not> startswith b ''/''"
  shows "path_join (basename f) b = (if basename f = [] then b else basename f @ ''/'' @ b)"
proof -
  have "\<not> endswith (basename f) ''/''"
  proof
    assume "endswith (basename f) ''/''"
    then have ne: "basename f \<noteq> []" and l: "last (basename f) = CHR ''/''"
      by (simp_all add: endswith_single)
    from last_in_set[OF ne] l basename_no_slash[of f] show False by simp
  qed
  with assms show ?thesis by (simp add: path_join_def)
qed

lemma shorten_loop_length:
  "\<not> startswith new_name ''/'' \<Longrightarrow>
   length (shorten_loop k new_name f)
     \<le> length new_name + length f + (if has_name f then 1 else 0)"
proof (induction k arbitrary: new_name f)
  case 0
  then show ?case by simp
next
  case (Suc k)
  define bn where "bn = basename f"
  define nn where "nn = path_join bn new_name"
  have nn: "nn = (if bn = [] then new_name else bn @ ''/'' @ new_name)"
    unfolding nn_def bn_def using Suc.prems by (rule path_join_basename)
  have no_slash: "CHR ''/'' \<notin> set bn" unfolding bn_def by (rule basename_no_slash)
  have ns: "\<not> startswith nn ''/''"
  proof (cases bn)
    case Nil
    with Suc.prems show ?thesis by (simp add: nn)
  next
    case (Cons a as)
    with no_slash have "a \<noteq> CHR ''/''" by auto
    with Cons show ?thesis by (simp add: nn)
  qed
  have D: "length bn + length (dirname f) + (if has_name (dirname f) then 1 else 0)
             \<le> length f"
    unfolding bn_def by (rule basename_dirname_length)
  have step: "length nn + length (dirname f) + (if has_name (dirname f) then 1 else 0)
          \<le> length new_name + length f + (if has_name f then 1 else 0)"
  proof (cases "bn = []")
    case True
    with D show ?thesis by (simp add: nn)
  next
    case False
    then obtain c where c: "c \<in> set bn" by (cases bn) auto
    with no_slash have "c \<noteq> CHR ''/''" by blast
    moreover from c basename_subset[of f] have "c \<in> set f" unfolding bn_def by blast
    ultimately have "has_name f" unfolding has_name_def by blast
    with D False show ?thesis by (simp add: nn)
  qed
  from Suc.IH[OF ns, of "dirname f"] step
  have "length (shorten_loop k nn (dirname f))
          \<le> length new_name + length f + (if has_name f then 1 else 0)"
    by (rule order_trans)
  then show ?case by (simp add: nn_def bn_def)
qed

lemma shorten_file_name_length: "length (shorten_file_name f levels) \<le> length f"
proof (cases "levels > 0")
  case True
  have "\<not> startswith (basename f) ''/''"
    using basename_no_slash[of f] by (cases "basename f") (auto simp: startswith_single)
  from shorten_loop_length[OF this, of "nat (levels - 1)" "dirname f"]
    basename_dirname_length[of f] True
  show ?thesis by (simp add: shorten_file_name_def)
next
  case False
  then show ?thesis by (simp add: shorten_file_name_def)
qed

text \<open>The other parts of a shortened line.\<close>

lemma file_re_search_length: "file_re_search p = Some g \<Longrightarrow> length g \<le> length p"
proof (induction p)
  case Nil
  then show ?case by simp
next
  case (Cons c cs)
  define seg where "seg = takeWhile (\<lambda>x. x \<noteq> CHR 0x0A) (drop 6 (c # cs))"
  show ?case
  proof (cases "startswith (c # cs) (''File '' @ [CHR 0x22]) \<and> CHR 0x22 \<in> set seg")
    case True
    with Cons.prems have "g = rev (tl (dropWhile (\<lambda>x. x \<noteq> CHR 0x22) (rev seg)))"
      by (simp add: seg_def Let_def)
    then have "length g \<le> length (dropWhile (\<lambda>x. x \<noteq> CHR 0x22) (rev seg))" by simp
    also have "\<dots> \<le> length (rev seg)" by (rule length_dropWhile_le)
    also have "\<dots> \<le> length (drop 6 (c # cs))"
      unfolding seg_def length_rev by (rule length_takeWhile_le)
    also have "\<dots> \<le> length (c # cs)" by simp
    finally show ?thesis .
  next
    case False
    with Cons.prems have "file_re_search cs = Some g"
      by (auto simp: seg_def Let_def split: if_splits)
    from Cons.IH[OF this] show ?thesis by simp
  qed
qed

lemma replace_length:
  "old \<noteq> [] \<Longrightarrow> length new \<le> length old \<Longrightarrow> length (replace old new s) \<le> length s"
proof (induction old new s rule: replace.induct)
  case (1 old new)
  then show ?case by simp
next
  case (2 old new c cs)
  show ?case
  proof (cases "startswith (c # cs) old")
    case True
    then have "take (length old) (c # cs) = old" by (simp only: startswith_iff_take)
    then have "length old = min (length (c # cs)) (length old)"
      by (metis length_take)
    then have "length old \<le> length (c # cs)" by linarith
    with 2(2)[OF 2(4) True 2(4,5)] 2(4,5) True show ?thesis by simp
  next
    case False
    with 2(3)[OF 2(4) False 2(4,5)] 2(4) show ?thesis by simp
  qed
qed

lemma split_chr_nonempty: "split_chr c s \<noteq> []"
  by (induction s) (auto simp: Let_def)

lemma join_split_chr: "join [c] (split_chr c s) = s"
proof (induction s)
  case Nil
  then show ?case by simp
next
  case (Cons x xs)
  obtain p ps where r: "split_chr c xs = p # ps"
    using split_chr_nonempty[of c xs] by (cases "split_chr c xs") auto
  with Cons show ?case by (cases ps) (auto simp: Let_def)
qed

lemma split_chr_two_parts: "c \<in> set s \<Longrightarrow> 2 \<le> length (split_chr c s)"
proof (induction s)
  case Nil
  then show ?case by simp
next
  case (Cons x xs)
  have "1 \<le> length (split_chr c xs)"
    using split_chr_nonempty[of c xs] by (cases "split_chr c xs") auto
  with Cons show ?case by (auto simp: Let_def)
qed

lemma contains_set: "contains (x # sub) s \<Longrightarrow> x \<in> set s"
  by (induction s) (auto split: if_splits)

lemma length_join:
  "length (join sep ls) = sum_list (map length ls) + (length ls - 1) * length sep"
  by (induction ls rule: induct_list012) simp_all

lemma sum_list_length_update:
  "length v \<le> length (ls ! i) \<Longrightarrow>
   sum_list (map length (ls[i := v])) \<le> sum_list (map length ls)"
proof (induction ls arbitrary: i)
  case Nil
  then show ?case by simp
next
  case (Cons l ls)
  then show ?case by (cases i) (auto simp: add_mono)
qed

lemma join_update_length:
  "length v \<le> length (ls ! i) \<Longrightarrow> length (join sep (ls[i := v])) \<le> length (join sep ls)"
  by (simp add: length_join sum_list_length_update)

lemma shorten_line_length:
  assumes "shorten_line levels l = Some l'"
  shows "length l' \<le> length l"
proof -
  define parts where "parts = split_chr (CHR '','') l"
  have whole: "join '','' parts = l" by (simp add: parts_def join_split_chr)
  consider
    (in_file) g where "file_re_search (parts ! 0) = Some g"
      "l' = join '','' (parts[0 := shorten_file_name g levels,
                              1 := replace ''line'' ''ln'' (parts ! 1)])"
  | (cleaned) "l' = join '','' (parts[0 := shorten_file_name (parts ! 0) levels])"
  | (same) "l' = l"
    using assms
    by (auto simp: shorten_line_def Let_def parts_def[symmetric] whole
             split: if_splits option.splits)
  then show ?thesis
  proof cases
    case in_file
    let ?p1 = "parts[0 := shorten_file_name g levels]"
    have "length (shorten_file_name g levels) \<le> length (parts ! 0)"
      using shorten_file_name_length[of g levels] file_re_search_length[OF in_file(1)] by simp
    then have a: "length (join '','' ?p1) \<le> length (join '','' parts)"
      by (rule join_update_length)
    have "length (replace ''line'' ''ln'' (parts ! 1)) \<le> length (?p1 ! 1)"
      by (simp add: replace_length)
    then have "length (join '','' (?p1[1 := replace ''line'' ''ln'' (parts ! 1)]))
                 \<le> length (join '','' ?p1)"
      by (rule join_update_length)
    with a whole in_file(2) show ?thesis by simp
  next
    case cleaned
    have "length (shorten_file_name (parts ! 0) levels) \<le> length (parts ! 0)"
      by (rule shorten_file_name_length)
    from join_update_length[OF this, of "'',''"] whole cleaned show ?thesis by simp
  next
    case same
    then show ?thesis by simp
  qed
qed

text \<open>Splitting into lines and joining again, with lines shortened or left out.\<close>

lemma join_Cons_length_le:
  "length (join sep (x # xs)) \<le> length x + length sep + length (join sep xs)"
  by (cases xs) simp_all

lemma join_splitlines_length: "length (join [CHR 0x0A] (splitlines s)) \<le> length s"
proof (induction s rule: splitlines.induct)
  case (1 s)
  show ?case
  proof (cases "s = []")
    case True
    then show ?thesis by simp
  next
    case False
    show ?thesis
    proof (cases "dropWhile (\<lambda>c. \<not> is_linebreak c) s")
      case Nil
      with False show ?thesis by (simp add: splitlines_last_line)
    next
      case (Cons b r)
      let ?rest = "if b = CHR 0x0D \<and> startswith r [CHR 0x0A] then tl r else r"
      let ?line = "takeWhile (\<lambda>c. \<not> is_linebreak c) s"
      have s: "s = ?line @ b # r" using Cons by (metis takeWhile_dropWhile_id)
      have "length s = length ?line + 1 + length r"
        by (subst s) simp
      moreover have "length ?rest \<le> length r" by simp
      moreover have "length (join [CHR 0x0A] (splitlines s))
                       \<le> length ?line + 1 + length (join [CHR 0x0A] (splitlines ?rest))"
        using join_Cons_length_le[of "[CHR 0x0A]" ?line "splitlines ?rest"]
        by (simp add: splitlines_next_line[OF Cons])
      ultimately show ?thesis using 1[OF False Cons] by linarith
    qed
  qed
qed

lemma map_filter_lengths:
  assumes "\<And>l l'. f l = Some l' \<Longrightarrow> length l' \<le> length l"
  shows "sum_list (map length (List.map_filter f ls)) \<le> sum_list (map length ls) \<and>
         length (List.map_filter f ls) \<le> length ls"
proof (induction ls)
  case Nil
  then show ?case by simp
next
  case (Cons l ls)
  then show ?case
    using assms[of l] by (cases "f l") (auto simp: add_mono)
qed

lemma join_map_filter_length:
  assumes "\<And>l l'. f l = Some l' \<Longrightarrow> length l' \<le> length l"
  shows "length (join sep (List.map_filter f ls)) \<le> length (join sep ls)"
proof -
  from map_filter_lengths[of f ls, OF assms]
  have a: "sum_list (map length (List.map_filter f ls)) \<le> sum_list (map length ls)"
    and b: "length (List.map_filter f ls) - 1 \<le> length ls - 1" by auto
  from b have "(length (List.map_filter f ls) - 1) * length sep \<le> (length ls - 1) * length sep"
    by (rule mult_le_mono1)
  with a show ?thesis by (simp add: length_join add_mono)
qed

lemma minify_by_shortening_file_names_length:
  "length (minify_by_shortening_file_names e levels) \<le> length e"
proof -
  have "length (minify_by_shortening_file_names e levels)
          \<le> length (join [CHR 0x0A] (splitlines e))"
    unfolding minify_by_shortening_file_names_def
    by (rule join_map_filter_length) (rule shorten_line_length)
  also have "\<dots> \<le> length e" by (rule join_splitlines_length)
  finally show ?thesis .
qed

lemma join_map_length:
  assumes "\<And>x. length (f x) \<le> length x"
  shows "length (join sep (map f ls)) \<le> length (join sep ls)"
proof -
  have "sum_list (map length (map f ls)) \<le> sum_list (map length ls)"
    by (induction ls) (auto simp: add_mono assms)
  then show ?thesis by (simp add: length_join)
qed

text \<open>
  Claim C2. The length of the joined string is said never to grow from one attempt to the
  next. For the error \<open>example_nested\<close> and the capacity 10 the third attempt, of 44
  characters, does not fit, so the fourth is made, and it has 52 characters: the line with
  \<open>During handling of the above exception\<close> is among the last three lines, and
  \<open>lines[-3:]\<close> keeps it, and the first exception before it, a second time after the
  ellipsis. The fourth attempt is what the minifier leaves in the list of errors.
\<close>

theorem nested_collapse_lengthens_joined_string:
  "(0::int) \<le> 10 \<and>
   \<not> fits 10 (join [CHR 0x0A] (shortened4 example_nested)) \<and>
   length (join [CHR 0x0A] (shortened4 example_nested))
     < length (join [CHR 0x0A] (collapsed example_nested)) \<and>
   fst (get_minified_errors example_nested (Some 10)) = collapsed example_nested"
proof -
  have s5: "shortened5 example_nested = example_nested" by code_simp
  have s4: "shortened4 example_nested = example_nested"
    unfolding shortened4_def s5 by code_simp
  have co: "collapsed example_nested =
              [''E1'' @ [CHR 0x0A] @ ''...'' @ [CHR 0x0A, CHR 0x0A] @ ''E1'' @ [CHR 0x0A] @
               ''During handling of the above exception'' @ [CHR 0x0A] @ ''E2'']"
    unfolding collapsed_def s4 by code_simp
  have len: "length (join [CHR 0x0A] example_nested) = 44"
    by (simp add: example_nested_def)
  have ne: "example_nested \<noteq> []" by (simp add: example_nested_def)
  from len have nf: "\<not> fits 10 (join [CHR 0x0A] example_nested)" by (simp add: fits_def)
  have "length (join [CHR 0x0A] (collapsed example_nested)) = 52"
    by (simp add: co)
  with len nf show ?thesis
    by (simp add: get_minified_errors_list[OF ne] s5 s4)
qed

text \<open>
  The steps that do hold: the joined string does not grow from the join as it is to the
  join with paths of five segments, nor from there to the join with paths of four segments;
  and whenever the minifier returns a string, that string is not longer than the join of
  the errors as they were.
\<close>

lemma shortening_attempts_do_not_lengthen:
  "length (join [CHR 0x0A] (shortened5 errs)) \<le> length (join [CHR 0x0A] errs) \<and>
   length (join [CHR 0x0A] (shortened4 errs)) \<le> length (join [CHR 0x0A] (shortened5 errs)) \<and>
   (snd (get_minified_errors errs capacity) = Inr r \<longrightarrow>
      length r \<le> length (join [CHR 0x0A] errs))"
proof -
  have a: "length (join [CHR 0x0A] (shortened5 errs)) \<le> length (join [CHR 0x0A] errs)"
    unfolding shortened5_def
    by (rule join_map_length) (rule minify_by_shortening_file_names_length)
  have b: "length (join [CHR 0x0A] (shortened4 errs))
             \<le> length (join [CHR 0x0A] (shortened5 errs))"
    unfolding shortened4_def
    by (rule join_map_length) (rule minify_by_shortening_file_names_length)
  have c: "length r \<le> length (join [CHR 0x0A] errs)"
    if r: "snd (get_minified_errors errs capacity) = Inr r"
  proof (cases capacity)
    case None
    with r show ?thesis by (simp add: get_minified_errors_def)
  next
    case (Some cap)
    show ?thesis
    proof (cases "errs = []")
      case True
      with r Some show ?thesis by (simp add: get_minified_errors_empty)
    next
      case False
      with r Some have m: "minified_by_strategies errs cap = Inr r"
        by (simp add: get_minified_errors_eq)
      show ?thesis
      proof (cases "fits cap (join [CHR 0x0A] errs)")
        case True
        with m have "r = join [CHR 0x0A] errs"
          by (simp add: minified_by_strategies_def strategy_attempts_def)
        then show ?thesis by simp
      next
        case False
        with minified_by_strategies_fits[OF m] show ?thesis by (simp add: fits_def)
      qed
    qed
  qed
  from a b c show ?thesis by blast
qed


text \<open>When the fourth attempt is still too long, the string that the last resort returns is
  not longer than the fourth attempt.\<close>

lemma returned_string_not_longer_than_fourth_attempt:
  assumes "snd (get_minified_errors errs (Some cap)) = Inr r"
    and "\<not> fits cap (join [CHR 0x0A] (collapsed errs))"
  shows "length r \<le> length (join [CHR 0x0A] (collapsed errs))"
proof (cases "errs = []")
  case True
  with assms(1) show ?thesis by (simp add: get_minified_errors_empty)
next
  case False
  with assms(1) have "minified_by_strategies errs cap = Inr r"
    by (simp add: get_minified_errors_eq)
  from minified_by_strategies_fits[OF this] assms(2) show ?thesis by (simp add: fits_def)
qed


section \<open>The strategies of the code are those of the specification\<close>

subsection \<open>Keeping the last segments of a path\<close>






















subsection \<open>The quoted path of a traceback line\<close>








subsection \<open>Shortening the paths of an error\<close>







subsection \<open>Collapsing nested exceptions and removing middle lines\<close>






subsection \<open>The first attempt within the capacity\<close>














section \<open>A failed minification in the issue URL\<close>

text \<open>An error of one line that no strategy can shorten: the letter \<open>x\<close> and nothing else.
  The last resort finds a single line and reads \<open>lines[1]\<close>.\<close>

lemma replace_no_match:
  "old \<noteq> [] \<Longrightarrow> hd old \<notin> set s \<Longrightarrow> replace old new s = s"
proof (induction s)
  case Nil
  then show ?case by simp
next
  case (Cons c cs)
  then obtain x xs where old: "old = x # xs" by (cases old) auto
  with Cons.prems have "x \<noteq> c" by auto
  then have "\<not> startswith (c # cs) old" by (auto simp: old)
  with Cons show ?case by simp
qed

lemma plain_line:
  assumes "s \<noteq> []" and "set s \<subseteq> {CHR ''x''}"
  shows "splitlines s = [s]"
    and "shorten_line levels s = Some s"
    and "\<not> contains ''During handling of the above exception'' s"
    and "replace CONTINUATION_STR [] s = s"
proof -
  have nb: "\<forall>c\<in>set s. \<not> is_linebreak c"
    using assms(2) by (auto simp: is_linebreak_def code_point_def)
  then have "dropWhile (\<lambda>c. \<not> is_linebreak c) s = []" by simp
  with assms(1) show "splitlines s = [s]" by (rule splitlines_last_line)
  have no: "\<not> contains (c # sub) s" if "c \<noteq> CHR ''x''" for c sub
    using contains_set[of c sub s] assms(2) that by auto
  have "set (lower s) \<subseteq> {CHR ''x''}"
    using assms(2) by (auto simp: lower_def lower_chr_def code_point_def Let_def)
  then have nl: "\<not> contains (c # sub) (lower s)" if "c \<noteq> CHR ''x''" for c sub
    using contains_set[of c sub "lower s"] that by auto
  show "shorten_line levels s = Some s"
    by (simp add: shorten_line_def no nl)
  show "\<not> contains ''During handling of the above exception'' s"
    by (simp add: no)
  show "replace CONTINUATION_STR [] s = s"
    using assms(2) by (intro replace_no_match) (auto simp: CONTINUATION_STR_def)
qed

lemma plain_line_strategies:
  assumes "s \<noteq> []" and "set s \<subseteq> {CHR ''x''}"
  shows "minify_by_shortening_file_names s levels = s"
    and "minify_by_removing_nested_exceptions s = s"
    and "minify_by_removing_lines s = Inl IndexError"
  using plain_line[OF assms]
  by (simp_all add: minify_by_shortening_file_names_def List.map_filter_def
        minify_by_removing_nested_exceptions_def minify_by_removing_lines_def Let_def)

lemma plain_line_IndexError:
  assumes "s \<noteq> []" and "set s \<subseteq> {CHR ''x''}" and "int (length s) > cap"
  shows "get_minified_errors [s] (Some cap) = ([s], Inl IndexError)"
proof -
  have "remove_lines_loop s cap = Inl IndexError"
    using assms(3) plain_line_strategies(3)[OF assms(1,2)]
    by (subst remove_lines_loop.simps) simp
  with assms(3) plain_line_strategies(1,2)[OF assms(1,2)] show ?thesis
    by (simp add: get_minified_errors_def Let_def)
qed

text \<open>
  Claim C6. \<open>_build_issue_info_tup\<close> is said to truncate the URL and warn, instead of raising
  an error, when minification cannot bring the URL within 2035 characters. With an error
  list of one line of \<open>n\<close> letters \<open>x\<close>, longer than what the issue body leaves of the 2035
  characters, the first call of \<open>_get_minified_issue_url\<close> ends with \<open>IndexError\<close> from
  \<open>set_capacity\<close>, which nothing catches: no URL is returned, nothing is truncated and no
  warning is logged.
\<close>

theorem build_issue_info_tup_raises_IndexError:
  assumes "h a = [replicate n (CHR ''x'')]" and "0 < n"
    and "int MAX_URL_LENGTH - int (length (template env [])) < int n"
  shows "build_issue_info_tup env h (Some (ErrorMinifier_init h a)) = Inl IndexError"
proof -
  let ?s = "replicate n (CHR ''x'')"
  let ?cap = "int MAX_URL_LENGTH - int (length (template env []))"
  have "?s \<noteq> []" "set ?s \<subseteq> {CHR ''x''}" "int (length ?s) > ?cap"
    using assms(2,3) by auto
  then have "get_minified_errors [?s] (Some ?cap) = ([?s], Inl IndexError)"
    by (rule plain_line_IndexError)
  with assms(1) have "snd (snd (set_capacity h (ErrorMinifier_init h a) ?cap)) = Some IndexError"
    by (simp add: set_capacity_unfold ErrorMinifier_init_def)
  then obtain h' m' where
    sc: "set_capacity h (ErrorMinifier_init h a) ?cap = (h', m', Some IndexError)"
    by (cases "set_capacity h (ErrorMinifier_init h a) ?cap") auto
  have "get_minified_issue_url env h (Some (ErrorMinifier_init h a)) (int MAX_URL_LENGTH) =
          (h', Some m', Inl IndexError)"
    by (simp add: get_minified_issue_url_def sc)
  then show ?thesis
    by (simp add: build_issue_info_tup_def)
qed

theorem build_issue_info_tup_raises_IndexError_witness:
  "build_issue_info_tup
     \<lparr>template = (\<lambda>e. replicate 600 (CHR ''b'') @ e),
      urlencode = (\<lambda>q. concat (map (\<lambda>(k, v). k @ ''='' @ v) q)),
      raw_issues_url = ''https://github.com/Azure/azure-cli/issues/new'',
      failed = True, pretty_url_name = ''aka.ms/azcli/issues'', is_ext = False\<rparr>
     (\<lambda>a. [replicate 2010 (CHR ''x'')])
     (Some (ErrorMinifier_init (\<lambda>a. [replicate 2010 (CHR ''x'')]) 0)) = Inl IndexError"
  using build_issue_info_tup_raises_IndexError
    [of "\<lambda>a. [replicate 2010 (CHR ''x'')]" 0 2010
        "\<lparr>template = (\<lambda>e. replicate 600 (CHR ''b'') @ e),
      urlencode = (\<lambda>q. concat (map (\<lambda>(k, v). k @ ''='' @ v) q)),
      raw_issues_url = ''https://github.com/Azure/azure-cli/issues/new'',
      failed = True, pretty_url_name = ''aka.ms/azcli/issues'', is_ext = False\<rparr>"]
  by (simp add: MAX_URL_LENGTH_def)


section \<open>Further facts about the model\<close>

text \<open>The list updates in \<open>shorten_line\<close> are within the list, as the indexing of
  \<open>parts\<close> is in the source.\<close>

lemma shorten_line_indices_in_range:
  "contains '', line'' l \<Longrightarrow> 2 \<le> length (split_chr (CHR '','') l)"
  by (rule split_chr_two_parts) (rule contains_set)

text \<open>A shortened file name has at most \<open>levels\<close> segments.\<close>

lemma slashes_path_join: "slashes (path_join a b) \<le> slashes a + slashes b + 1"
  by (simp add: path_join_def slashes_def)

lemma slashes_basename: "slashes (basename p) = 0"
  using basename_no_slash[of p] by (auto simp: slashes_def filter_empty_conv)

lemma shorten_loop_segments: "slashes (shorten_loop k new_name f) \<le> slashes new_name + k"
proof (induction k arbitrary: new_name f)
  case 0
  then show ?case by simp
next
  case (Suc k)
  have "slashes (path_join (basename f) new_name) \<le> slashes new_name + 1"
    using slashes_path_join[of "basename f" new_name] by (simp add: slashes_basename)
  with Suc[of "path_join (basename f) new_name" "dirname f"] show ?case by simp
qed

lemma shorten_file_name_segments:
  "0 < levels \<Longrightarrow> slashes (shorten_file_name f levels) < nat levels"
  using shorten_loop_segments[of "nat (levels - 1)" "basename f" "dirname f"]
  by (simp add: shorten_file_name_def slashes_basename)

text \<open>Removing lines can lengthen the string as well: three empty lines become one empty
  line and the marker.\<close>

lemma minify_by_removing_lines_lengthens:
  "minify_by_removing_lines [CHR 0x0A, CHR 0x0A, CHR 0x0A] = Inr ([CHR 0x0A] @ ''...'')"
  by code_simp

text \<open>\<open>IndexError\<close> is the only exception of the minifier.\<close>

lemma remove_lines_loop_error: "remove_lines_loop s cap = Inl e \<Longrightarrow> e = IndexError"
proof (induction s cap rule: remove_lines_loop.induct)
  case (1 s cap)
  show ?case
  proof (cases "minify_by_removing_lines s")
    case (Inl x)
    with 1(2) show ?thesis
      by (subst (asm) remove_lines_loop.simps)
         (auto simp: minify_by_removing_lines_def Let_def split: if_splits)
  next
    case (Inr s')
    with 1(2) have gt: "int (length s) > cap" and "remove_lines_loop s' cap = Inl e"
      by (subst (asm) remove_lines_loop.simps, simp split: if_splits)+
    with 1(1)[OF gt Inr] show ?thesis by simp
  qed
qed

lemma set_capacity_error:
  assumes "set_capacity h self cap = (h', self', Some e)"
  shows "e = IndexError"
proof (cases "h (m_errors_list self) = []")
  case True
  with assms show ?thesis by (simp add: set_capacity_unfold get_minified_errors_empty)
next
  case False
  with assms have "minified_by_strategies (h (m_errors_list self)) cap = Inl e"
    by (auto simp: set_capacity_unfold get_minified_errors_eq split: sum.splits)
  then have "remove_lines_loop (join [CHR 0x0A] (collapsed (h (m_errors_list self)))) cap = Inl e"
    by (simp add: minified_by_strategies_def split: option.splits)
  then show ?thesis by (rule remove_lines_loop_error)
qed

text \<open>\<open>int\<close> does not drop the separators FS..US, which \<open>str.strip\<close> does drop, and it takes
  the spaces above ASCII as spaces.\<close>

lemma py_int_separator_not_stripped:
  "py_int [CHR 0x1C, CHR ''5''] = None"
  "py_int (strip [CHR 0x1C, CHR ''5'']) = Some 5"
  "py_int [CHR 0x85, CHR ''5'', CHR 0xA0] = Some 5"
  by code_simp+

text \<open>When \<open>_get_info_from_log_line\<close> returns a record, and which.\<close>

lemma get_info_from_log_line_Some_iff:
  "get_info_from_log_line pfx line pid = Inr (Some r) \<longleftrightarrow>
     startswith line pfx \<and>
     length (split_chr_max 4 (CHR ''|'') (drop (length pfx) line)) = 5 \<and>
     py_int (strip (split_chr_max 4 (CHR ''|'') (drop (length pfx) line) ! 0)) = Some pid \<and>
     r = \<lparr>p_id = pid,
          date_time = strip (split_chr_max 4 (CHR ''|'') (drop (length pfx) line) ! 1),
          level = strip (split_chr_max 4 (CHR ''|'') (drop (length pfx) line) ! 2),
          logger = strip (split_chr_max 4 (CHR ''|'') (drop (length pfx) line) ! 3),
          log_msg = strip (split_chr_max 4 (CHR ''|'') (drop (length pfx) line) ! 4)
                      @ [CHR 0x0A]\<rparr>"
proof -
  have "\<not> endswith (strip s) [CHR 0x0A]" for s
  proof
    assume "endswith (strip s) [CHR 0x0A]"
    then have ne: "strip s \<noteq> []" and l: "last (strip s) = CHR 0x0A"
      by (simp_all add: endswith_single)
    let ?t = "dropWhile is_space (rev (lstrip s))"
    from ne have "?t \<noteq> []" by (simp add: strip_def rstrip_def)
    from hd_dropWhile[OF this] have "\<not> is_space (hd ?t)" .
    moreover from l ne have "hd ?t = CHR 0x0A"
      by (simp add: strip_def rstrip_def last_rev)
    ultimately show False by (simp add: is_space_def code_point_def)
  qed
  then show ?thesis
    by (auto simp: get_info_from_log_line_def Let_def split: option.splits)
qed


end
